theory Spec2Isabelle
  imports Complex_Main
begin

section \<open>The scaled-PCA weight estimator \<open>scaleproc\<close> of CubeStuff.cpp\<close>

text \<open>
  The routine works on IEEE doubles through the Armadillo library. The embedding computes
  with exact reals as long as the values the code divides by, and the sums of squares it
  forms, stay in the range of normal doubles, and makes every other run an explicit
  failure:
  \<^item> \<open>NonFinite\<close>: the C++ code divides by zero or a sum overflows to infinity, so that NaN
    or infinity reaches the returned vector or makes the library raise;
  \<^item> \<open>Thrown\<close>: Armadillo raises (a failed decomposition leaves empty results, and the next
    column access or product is out of bounds);
  \<^item> \<open>OutOfRange\<close>: a variance or a norm overflows or falls below the smallest normal
    double; the C++ code goes on with infinity, zero or a subnormal number, and what it
    returns then is not followed.
  Rounding of in-range values is not modelled.
\<close>

type_synonym vec = "real list"

text \<open>A dense matrix is the list of its rows.\<close>

type_synonym mat = "real list list"

datatype failure = NonFinite | Thrown | OutOfRange

subsection \<open>The range of doubles\<close>

text \<open>The largest finite double and the smallest positive normal double.\<close>

definition DBL_MAX :: real where
  "DBL_MAX = (2 - 1 / 2 ^ 52) * 2 ^ 1023"

definition DBL_MIN :: real where
  "DBL_MIN = 1 / 2 ^ 1022"

definition overflows :: "real \<Rightarrow> bool" where
  "overflows x = (DBL_MAX < x)"

definition underflows :: "real \<Rightarrow> bool" where
  "underflows x = (0 < x \<and> x < DBL_MIN)"

definition in_range :: "real \<Rightarrow> bool" where
  "in_range x = (\<not> overflows \<bar>x\<bar> \<and> \<not> underflows \<bar>x\<bar>)"

text \<open>The values that the sums of squares and the final scaling can take: a finite number,
  plus infinity, or NaN. \<open>to_double\<close> is the double that a non-negative exact result
  becomes; the operations are those of IEEE 754 on non-negative operands.\<close>

datatype ieee = Fin real | PInf | NaN

definition to_double :: "real \<Rightarrow> ieee" where
  "to_double x = (if overflows x then PInf else Fin x)"

fun ieee_div :: "ieee \<Rightarrow> ieee \<Rightarrow> ieee" where
  "ieee_div (Fin a) (Fin b) =
     (if b = 0 then (if a = 0 then NaN else PInf) else to_double (a / b))"
| "ieee_div PInf (Fin b) = PInf"
| "ieee_div (Fin a) PInf = Fin 0"
| "ieee_div PInf PInf = NaN"
| "ieee_div NaN y = NaN"
| "ieee_div x NaN = NaN"

fun ieee_sqrt :: "ieee \<Rightarrow> ieee" where
  "ieee_sqrt (Fin x) = (if x < 0 then NaN else Fin (sqrt x))"
| "ieee_sqrt PInf = PInf"
| "ieee_sqrt NaN = NaN"

text \<open>\<open>abs(f * v)\<close> for a factor \<open>f\<close> and a finite \<open>v\<close>.\<close>

fun ieee_abs_times :: "ieee \<Rightarrow> real \<Rightarrow> ieee" where
  "ieee_abs_times (Fin f) v = to_double \<bar>f * v\<bar>"
| "ieee_abs_times PInf v = (if v = 0 then NaN else PInf)"
| "ieee_abs_times NaN v = NaN"

fun is_Fin :: "ieee \<Rightarrow> bool" where
  "is_Fin (Fin x) = True"
| "is_Fin PInf = False"
| "is_Fin NaN = False"

fun fin_value :: "ieee \<Rightarrow> real" where
  "fin_value (Fin x) = x"
| "fin_value PInf = 0"
| "fin_value NaN = 0"

text \<open>Comparisons of doubles: NaN compares false with everything.\<close>

fun ieee_le :: "ieee \<Rightarrow> ieee \<Rightarrow> bool" where
  "ieee_le (Fin a) (Fin b) = (a \<le> b)"
| "ieee_le (Fin a) PInf = True"
| "ieee_le PInf PInf = True"
| "ieee_le PInf (Fin b) = False"
| "ieee_le NaN y = False"
| "ieee_le x NaN = False"

fun ieee_less :: "ieee \<Rightarrow> ieee \<Rightarrow> bool" where
  "ieee_less (Fin a) (Fin b) = (a < b)"
| "ieee_less (Fin a) PInf = True"
| "ieee_less PInf y = False"
| "ieee_less NaN y = False"
| "ieee_less x NaN = False"

subsection \<open>What the code takes from Armadillo and LAPACK\<close>

text \<open>
  \<open>eig_sym\<close> and \<open>sort_index\<close> are library routines whose answer the source only consumes; they
  are parameters of the model. \<open>eig_sym\<close> returns \<open>None\<close> when the decomposition fails.
  \<open>empty_vec_n_cols\<close> is the column count the library reports for a default-constructed
  \<open>vec\<close> (line 74 reads it before \<open>eig_sym\<close> fills the vector).
  \<open>cor_single\<close> is what \<open>cor\<close> answers for one observation of one variable
  (\<open>None\<close> for NaN).
\<close>

record armadillo =
  eig_sym :: "mat \<Rightarrow> (vec \<times> mat) option"
  sort_index_descend :: "vec \<Rightarrow> nat list"
  empty_vec_n_cols :: nat
  cor_single :: "real option"

definition accu :: "vec \<Rightarrow> real" where
  "accu xs = sum_list xs"

definition mean :: "vec \<Rightarrow> real" where
  "mean xs = sum_list xs / real (length xs)"

text \<open>\<open>var(x, 0)\<close>: normalised by \<open>n - 1\<close>; Armadillo answers 0 for fewer than two elements.\<close>

definition var :: "vec \<Rightarrow> real" where
  "var xs = (if length xs < 2 then 0
             else (\<Sum>x\<leftarrow>xs. (x - mean xs)\<^sup>2) / real (length xs - 1))"

definition dot :: "vec \<Rightarrow> vec \<Rightarrow> real" where
  "dot xs ys = (\<Sum>(x, y)\<leftarrow>zip xs ys. x * y)"

definition col :: "mat \<Rightarrow> nat \<Rightarrow> vec" where
  "col A j = map (\<lambda>r. r ! j) A"

text \<open>Transpose of a matrix with \<open>k\<close> columns, and the product with a matrix of \<open>k\<close> columns.\<close>

definition mat_t :: "nat \<Rightarrow> mat \<Rightarrow> mat" where
  "mat_t k A = map (col A) [0..<k]"

definition mat_mul :: "mat \<Rightarrow> nat \<Rightarrow> mat \<Rightarrow> mat" where
  "mat_mul A k B = map (\<lambda>r. map (\<lambda>j. dot r (col B j)) [0..<k]) A"

definition well_shaped :: "nat \<Rightarrow> nat \<Rightarrow> mat \<Rightarrow> bool" where
  "well_shaped n k A = (length A = n \<and> (\<forall>r\<in>set A. length r = k))"

subsection \<open>The caller's array and the first loop (lines 21 to 31)\<close>

text \<open>
  \<open>array_\<close> is an R numeric array with a three-element \<open>dim\<close> attribute. The cube is built
  with \<open>copy_aux_mem = false\<close>, so it is a view of the caller's memory: the model keeps a
  heap of doubles, the address where the array starts, and the address from which new
  matrices are allocated.
\<close>

record numeric_array =
  begin_addr :: nat
  dim0 :: nat
  dim1 :: nat
  dim2 :: nat

record world =
  heap :: "nat \<Rightarrow> real"
  brk :: nat
  console :: "real list"

text \<open>An R array holds exactly \<open>prod(dim)\<close> doubles; fresh matrices lie behind it; the
  product of the first two extents is computed in \<open>int\<close>.\<close>

definition wf_call :: "numeric_array \<Rightarrow> world \<Rightarrow> bool" where
  "wf_call a w = (begin_addr a + dim0 a * dim1 a * dim2 a \<le> brk w
                  \<and> dim0 a * dim1 a < 2 ^ 31 \<and> dim2 a < 2 ^ 31)"

text \<open>\<open>vectorise(myCube.slice(i))\<close>: the slice in memory (column-major) order.\<close>

definition slice :: "(nat \<Rightarrow> real) \<Rightarrow> numeric_array \<Rightarrow> nat \<Rightarrow> vec" where
  "slice h a i = map (\<lambda>t. h (begin_addr a + dim0 a * dim1 a * i + t)) [0..<dim0 a * dim1 a]"

text \<open>\<open>omat.row(i) = r\<close> for the column-major \<open>n\<close>-row matrix stored at \<open>base\<close>.\<close>

definition store_row :: "nat \<Rightarrow> nat \<Rightarrow> nat \<Rightarrow> vec \<Rightarrow> (nat \<Rightarrow> real) \<Rightarrow> (nat \<Rightarrow> real)" where
  "store_row base n i r h = fold (\<lambda>j g. g(base + i + n * j := r ! j)) [0..<length r] h"

definition fill_step ::
  "numeric_array \<Rightarrow> nat \<Rightarrow> nat \<Rightarrow> nat \<Rightarrow> (nat \<Rightarrow> real) \<Rightarrow> (nat \<Rightarrow> real)" where
  "fill_step a ab ob i h =
     (let h1 = h(ab + i := accu (map (\<lambda>x. x * x) (slice h a i)));
          tmp = slice h1 a i
      in store_row ob (dim2 a) i tmp h1)"

definition fill_loop ::
  "numeric_array \<Rightarrow> nat \<Rightarrow> nat \<Rightarrow> (nat \<Rightarrow> real) \<Rightarrow> (nat \<Rightarrow> real)" where
  "fill_loop a ab ob h = fold (fill_step a ab ob) [0..<dim2 a] h"

definition load_vec :: "(nat \<Rightarrow> real) \<Rightarrow> nat \<Rightarrow> nat \<Rightarrow> vec" where
  "load_vec h base n = map (\<lambda>i. h (base + i)) [0..<n]"

definition load_mat :: "(nat \<Rightarrow> real) \<Rightarrow> nat \<Rightarrow> nat \<Rightarrow> nat \<Rightarrow> mat" where
  "load_mat h base n k = map (\<lambda>i. map (\<lambda>j. h (base + i + n * j)) [0..<k]) [0..<n]"

subsection \<open>The final scaling (lines 68 and 76)\<close>

text \<open>\<open>sqrt(aasum/aa)\<close> at an entry \<open>x\<close> of \<open>aa\<close>, in doubles: \<open>aa(i)\<close> (line 28) and
  \<open>aasum\<close> (line 35) are sums of squares and overflow to infinity beyond \<open>DBL_MAX\<close>.\<close>

definition scale_factor :: "vec \<Rightarrow> real \<Rightarrow> ieee" where
  "scale_factor aa x = ieee_sqrt (ieee_div (to_double (sum_list aa)) (to_double x))"

text \<open>\<open>abs(sqrt(aasum/aa) % c)\<close>; the element-wise product needs equal sizes. The vector
  is returned also when it holds NaN or infinity (a zero or overflowed \<open>aa(i)\<close>, an
  overflowed quotient or product): that is the result \<open>NonFinite\<close>.\<close>

definition weights :: "vec \<Rightarrow> vec \<Rightarrow> failure + vec" where
  "weights aa c =
     (if length c \<noteq> length aa then Inl Thrown
      else if \<exists>x\<in>set aa. underflows x then Inl OutOfRange
      else let h = map (\<lambda>(x, v). ieee_abs_times (scale_factor aa x) v) (zip aa c)
           in if \<exists>y\<in>set h. \<not> is_Fin y then Inl NonFinite else Inr (map fin_value h))"

subsection \<open>The branch for more samples than features (lines 41 to 69)\<close>

text \<open>\<open>qq(i) = var(omat.row(i), 0) * df\<close> with \<open>df = (nn - 1) / nn\<close>.\<close>

definition qq_of :: "nat \<Rightarrow> vec \<Rightarrow> real" where
  "qq_of nn r = var r * ((real nn - 1) / real nn)"

definition centre :: "vec \<Rightarrow> vec" where
  "centre r = map (\<lambda>x. x - mean r) r"

text \<open>\<open>omat = diagmat(sqrt(1/qq)) * omat\<close> after the rows were centred.\<close>

definition scaled_omat :: "nat \<Rightarrow> mat \<Rightarrow> mat" where
  "scaled_omat nn omat = map (\<lambda>r. map (\<lambda>x. sqrt (1 / qq_of nn r) * x) (centre r)) omat"

text \<open>\<open>Lmat = omat.t() * (omat / df)\<close> with \<open>df = kk\<close>.\<close>

definition Lmat_of :: "nat \<Rightarrow> mat \<Rightarrow> mat" where
  "Lmat_of kk om = mat_mul (mat_t kk om) kk (map (map (\<lambda>x. x / real kk)) om)"

definition usort_of :: "nat \<Rightarrow> nat list" where
  "usort_of nlam = map (\<lambda>i. nlam - 1 - i) [0..<nlam]"

text \<open>Lines 45 to 57: the decomposition with both results put in reversed order. A zero
  \<open>qq(i)\<close> makes row \<open>i\<close> of \<open>omat\<close> NaN; a variance outside the range of normal doubles
  makes the scaled row something else than the exact one.\<close>

definition rich_eig :: "armadillo \<Rightarrow> nat \<Rightarrow> nat \<Rightarrow> mat \<Rightarrow> failure + (vec \<times> mat)" where
  "rich_eig lib nn kk omat =
     (if \<exists>r\<in>set omat. qq_of nn r \<le> 0 then Inl NonFinite
      else if \<exists>r\<in>set omat. \<not> in_range (var r) \<or> \<not> in_range (qq_of nn r) then Inl OutOfRange
      else case eig_sym lib (Lmat_of kk (scaled_omat nn omat)) of
        None \<Rightarrow> Inl Thrown
      | Some (lambda, U) \<Rightarrow>
          if length lambda \<noteq> kk \<or> \<not> well_shaped kk kk U then Inl Thrown
          else Inr (map (\<lambda>i. lambda ! i) (usort_of (length lambda)),
                    map (\<lambda>r. map (\<lambda>i. r ! i) (usort_of (length lambda))) U))"

text \<open>Line 58: \<open>V = omat * U\<close>.\<close>

definition V_of :: "nat \<Rightarrow> nat \<Rightarrow> mat \<Rightarrow> mat \<Rightarrow> mat" where
  "V_of nn kk omat U = mat_mul (scaled_omat nn omat) kk U"

text \<open>Lines 59 to 63: the norm of each column, and the column divided by it. A column of
  norm zero becomes a column of NaN (\<open>None\<close>).\<close>

definition vv_of :: "nat \<Rightarrow> mat \<Rightarrow> vec" where
  "vv_of kk V = map (\<lambda>i. sqrt (dot (col V i) (col V i))) [0..<kk]"

definition normalised_cols :: "nat \<Rightarrow> mat \<Rightarrow> vec option list" where
  "normalised_cols kk V =
     map (\<lambda>i. if vv_of kk V ! i = 0 then None
              else Some (map (\<lambda>x. x / vv_of kk V ! i) (col V i))) [0..<kk]"

text \<open>Line 64: \<open>delta = sqrt(abs(lambda/df)) % vv\<close>.\<close>

definition delta_of :: "nat \<Rightarrow> vec \<Rightarrow> vec \<Rightarrow> vec" where
  "delta_of kk lambda vv = map (\<lambda>(l, v). sqrt \<bar>l / real kk\<bar> * v) (zip lambda vv)"

text \<open>Lines 65 and 68: the column \<open>V.col(od(0))\<close>. A squared column norm or a \<open>delta\<close>
  outside the range of doubles is not followed.\<close>

definition rich_column :: "armadillo \<Rightarrow> nat \<Rightarrow> nat \<Rightarrow> mat \<Rightarrow> failure + vec" where
  "rich_column lib nn kk omat =
     (case rich_eig lib nn kk omat of
        Inl e \<Rightarrow> Inl e
      | Inr (lambda, U) \<Rightarrow>
          (let V = V_of nn kk omat U;
               od = sort_index_descend lib (delta_of kk lambda (vv_of kk V))
           in if \<exists>i\<in>set [0..<kk]. \<not> in_range (dot (col V i) (col V i)) then Inl OutOfRange
              else if \<exists>d\<in>set (delta_of kk lambda (vv_of kk V)). overflows d then Inl OutOfRange
              else if od = [] \<or> kk \<le> od ! 0 then Inl Thrown
              else case normalised_cols kk V ! (od ! 0) of
                     None \<Rightarrow> Inl NonFinite
                   | Some c \<Rightarrow> Inr c))"

definition samples_rich :: "armadillo \<Rightarrow> nat \<Rightarrow> nat \<Rightarrow> vec \<Rightarrow> mat \<Rightarrow> failure + vec" where
  "samples_rich lib nn kk aa omat =
     (case rich_column lib nn kk omat of Inl e \<Rightarrow> Inl e | Inr c \<Rightarrow> weights aa c)"

subsection \<open>The branch for at most as many samples as features (lines 71 to 76)\<close>

definition cov :: "vec \<Rightarrow> vec \<Rightarrow> real" where
  "cov x y = dot (centre x) (centre y) / real (length x - 1)"

text \<open>\<open>cor(omatorig.t())\<close>: the samples are the variables, the \<open>kk\<close> features the
  observations. A sample of variance zero gives 0/0, a variance that overflows gives
  infinity over infinity, and one below the smallest normal double is not followed.\<close>

definition cor_t :: "armadillo \<Rightarrow> nat \<Rightarrow> mat \<Rightarrow> failure + mat" where
  "cor_t lib kk omat =
     (if kk < 2 then
        (case cor_single lib of None \<Rightarrow> Inl NonFinite
         | Some v \<Rightarrow> Inr (map (\<lambda>x. map (\<lambda>y. v) omat) omat))
      else if \<exists>r\<in>set omat. sqrt (cov r r) = 0 then Inl NonFinite
      else if \<exists>r\<in>set omat. overflows (cov r r) then Inl NonFinite
      else if \<exists>r\<in>set omat. underflows (cov r r) then Inl OutOfRange
      else Inr (map (\<lambda>x. map (\<lambda>y. cov x y / (sqrt (cov x x) * sqrt (cov y y))) omat) omat))"

definition feature_column :: "armadillo \<Rightarrow> nat \<Rightarrow> nat \<Rightarrow> mat \<Rightarrow> failure + vec" where
  "feature_column lib nn kk omat =
     (case cor_t lib kk omat of
        Inl e \<Rightarrow> Inl e
      | Inr zz \<Rightarrow>
          (let maxval = empty_vec_n_cols lib
           in case eig_sym lib zz of
                None \<Rightarrow> Inl Thrown
              | Some (eigval, eigvec) \<Rightarrow>
                  if \<not> well_shaped nn nn eigvec \<or> nn \<le> maxval then Inl Thrown
                  else Inr (col eigvec maxval)))"

definition feature_rich :: "armadillo \<Rightarrow> nat \<Rightarrow> nat \<Rightarrow> vec \<Rightarrow> mat \<Rightarrow> failure + vec" where
  "feature_rich lib nn kk aa omat =
     (case feature_column lib nn kk omat of Inl e \<Rightarrow> Inl e | Inr c \<Rightarrow> weights aa c)"

subsection \<open>The whole call\<close>

datatype path = SamplesRich | FeatureRich

text \<open>Line 40: \<open>if (nn > kk)\<close>.\<close>

definition path_taken :: "nat \<Rightarrow> nat \<Rightarrow> path" where
  "path_taken nn kk = (if nn > kk then SamplesRich else FeatureRich)"

text \<open>Lines 32 to 78 on the values of \<open>aa\<close> and \<open>omat\<close>. With an empty extent every path ends
  in an out-of-bounds access. The second component is what \<open>Rprintf\<close> prints.\<close>

definition estimate ::
  "armadillo \<Rightarrow> nat \<Rightarrow> nat \<Rightarrow> vec \<Rightarrow> mat \<Rightarrow> (failure + vec) \<times> real list" where
  "estimate lib nn kk aa omat =
     (if nn = 0 \<or> kk = 0 then (Inl Thrown, [])
      else case path_taken nn kk of
        SamplesRich \<Rightarrow>
          (case samples_rich lib nn kk aa omat of
             Inl e \<Rightarrow> (Inl e, [])
           | Inr h \<Rightarrow> (Inr h, [aa ! 0]))
      | FeatureRich \<Rightarrow> (feature_rich lib nn kk aa omat, []))"

definition scaleproc :: "armadillo \<Rightarrow> numeric_array \<Rightarrow> world \<Rightarrow> (failure + vec) \<times> world" where
  "scaleproc lib a w =
     (let n = dim2 a;
          k = dim0 a * dim1 a;
          ab = brk w;
          ob = brk w + n;
          h = fill_loop a ab ob (heap w);
          aa = load_vec h ab n;
          omat = load_mat h ob n k;
          (res, out) = estimate lib n k aa omat
      in (res, w\<lparr>heap := h, console := console w @ out\<rparr>))"

subsection \<open>What the first loop leaves in \<open>omat\<close> and \<open>aa\<close>\<close>

text \<open>The rows of \<open>omat\<close> and the entries of \<open>aa\<close> as functions of the cells of the array,
  and the invariant of the loop after \<open>m\<close> rounds, with \<open>aa\<close> stored at \<open>b\<close> and \<open>omat\<close>
  behind it. \<open>aa_of\<close> is the exact sum of squares; the double that line 28 stores is
  \<open>to_double\<close> of it, infinity when the sum is beyond \<open>DBL_MAX\<close>, and that is the value the
  final scaling (\<open>scale_factor\<close>, \<open>weights\<close>) works with.\<close>

definition samples_of :: "(nat \<Rightarrow> real) \<Rightarrow> numeric_array \<Rightarrow> mat" where
  "samples_of h a = map (slice h a) [0..<dim2 a]"

definition aa_of :: "mat \<Rightarrow> vec" where
  "aa_of om = map (\<lambda>r. accu (map (\<lambda>x. x * x) r)) om"

definition fill_inv :: "numeric_array \<Rightarrow> nat \<Rightarrow> (nat \<Rightarrow> real) \<Rightarrow> nat \<Rightarrow> (nat \<Rightarrow> real) \<Rightarrow> bool" where
  "fill_inv a b h0 m h =
     ((\<forall>x<b. h x = h0 x)
      \<and> (\<forall>i<m. h (b + i) = accu (map (\<lambda>x. x * x) (slice h0 a i)))
      \<and> (\<forall>i<m. \<forall>j<dim0 a * dim1 a. h (b + dim2 a + i + dim2 a * j) = slice h0 a i ! j))"

subsection \<open>Eigenvectors of a symmetric matrix\<close>

text \<open>What a correct \<open>eig_sym\<close> promises for one column of its answer: the column is a
  unit vector that the matrix maps to the eigenvalue times itself. The eigenvalue is
  simple when every such unit vector is the column or its negative.\<close>

definition mat_vec :: "mat \<Rightarrow> vec \<Rightarrow> vec" where
  "mat_vec A v = map (\<lambda>r. dot r v) A"

definition unit_eigvec :: "mat \<Rightarrow> real \<Rightarrow> vec \<Rightarrow> bool" where
  "unit_eigvec A lam v = (length v = length A \<and> mat_vec A v = map ((*) lam) v \<and> dot v v = 1)"

definition simple_eigvec :: "mat \<Rightarrow> real \<Rightarrow> vec \<Rightarrow> bool" where
  "simple_eigvec A lam u =
     (unit_eigvec A lam u \<and> (\<forall>v. unit_eigvec A lam v \<longrightarrow> v = u \<or> v = map uminus u))"

subsection \<open>Concrete arrays, memories and libraries\<close>

text \<open>A memory holding the given doubles from address 0, with fresh storage behind them.\<close>

definition heap_of :: "vec \<Rightarrow> nat \<Rightarrow> real" where
  "heap_of xs x = (if x < length xs then xs ! x else 0)"

definition world_of :: "vec \<Rightarrow> world" where
  "world_of xs = \<lparr>heap = heap_of xs, brk = length xs, console = []\<rparr>"

definition array_of :: "nat \<Rightarrow> nat \<Rightarrow> nat \<Rightarrow> numeric_array" where
  "array_of r c n = \<lparr>begin_addr = 0, dim0 = r, dim1 = c, dim2 = n\<rparr>"

text \<open>The array of two slices of four features at address 1 of a memory that holds other
  numbers before it, with a console that already shows a line.\<close>

definition moved_array :: numeric_array where
  "moved_array = \<lparr>begin_addr = 1, dim0 = 2, dim1 = 2, dim2 = 2\<rparr>"

definition moved_world :: world where
  "moved_world = \<lparr>heap = heap_of [9, 1, - 1, 1, - 1, 2, 2, - 2, - 2], brk = 9, console = [7]\<rparr>"

text \<open>
  A decomposition routine that knows two kinds of symmetric matrix: the identity of any
  size, whose eigenvectors are the unit vectors, and \<open>tied_L\<close>, which has the eigenvalue
  0 twice and the eigenvalue 27/10 twice. Both answers are genuine decompositions:
  eigenvalues ascending, eigenvectors orthonormal (\<open>lapack_small_genuine\<close> and
  \<open>lapack_small_identity_genuine\<close> below).
\<close>

definition tied_L :: mat where
  "tied_L = [[27 / 20, 0, 0, - (27 / 20)], [0, 27 / 20, - (27 / 20), 0],
             [0, - (27 / 20), 27 / 20, 0], [- (27 / 20), 0, 0, 27 / 20]]"

definition tied_U :: mat where
  "tied_U = [[1 / 2, 1 / 2, 1 / 2, 1 / 2], [1 / 2, - (1 / 2), 1 / 2, - (1 / 2)],
             [1 / 2, - (1 / 2), - (1 / 2), 1 / 2], [1 / 2, 1 / 2, - (1 / 2), - (1 / 2)]]"

definition identity_mat :: "nat \<Rightarrow> mat" where
  "identity_mat n = map (\<lambda>i. map (\<lambda>j. if i = j then 1 else 0) [0..<n]) [0..<n]"

definition lapack_small :: "mat \<Rightarrow> (vec \<times> mat) option" where
  "lapack_small m =
     (if m = tied_L then Some ([0, 0, 27 / 10, 27 / 10], tied_U)
      else if m = identity_mat (length m) then Some (map (\<lambda>i. 1) m, m)
      else None)"

text \<open>Two descending index sorts: among equal values the lower index first, or the
  higher index first. \<open>sort_index\<close> promises no order among equal values.\<close>

definition sort_first :: "vec \<Rightarrow> nat list" where
  "sort_first d = sort_key (\<lambda>i. - d ! i) [0..<length d]"

definition sort_last :: "vec \<Rightarrow> nat list" where
  "sort_last d = rev (sort_key (\<lambda>i. d ! i) [0..<length d])"

text \<open>Two libraries: one whose empty column vector reports no column, one whose empty
  column vector reports one column.\<close>

definition arma_old :: armadillo where
  "arma_old = \<lparr>eig_sym = lapack_small, sort_index_descend = sort_first,
      empty_vec_n_cols = 0, cor_single = None\<rparr>"

definition arma_new :: armadillo where
  "arma_new = \<lparr>eig_sym = lapack_small, sort_index_descend = sort_last,
      empty_vec_n_cols = 1, cor_single = Some 1\<rparr>"

text \<open>
  Six slices of four features. After centring and scaling, every row of \<open>omat\<close> is
  \<open>3/5 * (p * u1 + q * u2)\<close> for two orthonormal vectors \<open>u1\<close>, \<open>u2\<close> and a pair
  \<open>(p, q)\<close> out of \<open>(\<plusminus>3, \<plusminus>1)\<close>, \<open>(\<plusminus>1, \<plusminus>3)\<close>, so that \<open>Lmat\<close> is \<open>tied_L\<close>. \<open>tied_data\<close> is
  the array in memory order, \<open>tied_data_rev\<close> the same slices in reversed order,
  \<open>tied_Urev\<close> the eigenvectors in reversed order and \<open>tied_V\<close> the product of line 58.
\<close>

definition tied_samples :: mat where
  "tied_samples = [[4, - 2, 2, - 4], [2, - 4, 4, - 2], [- 2, 4, - 4, 2],
                   [4, 2, - 2, - 4], [- 4, - 2, 2, 4], [- 2, - 4, 4, 2]]"

definition tied_V :: mat where
  "tied_V = [[9 / 5, 3 / 5, 0, 0], [9 / 5, - (3 / 5), 0, 0], [- (9 / 5), 3 / 5, 0, 0],
             [3 / 5, 9 / 5, 0, 0], [- (3 / 5), - (9 / 5), 0, 0], [3 / 5, - (9 / 5), 0, 0]]"

definition tied_Urev :: mat where
  "tied_Urev = [[1 / 2, 1 / 2, 1 / 2, 1 / 2], [- (1 / 2), 1 / 2, - (1 / 2), 1 / 2],
                [1 / 2, - (1 / 2), - (1 / 2), 1 / 2], [- (1 / 2), - (1 / 2), 1 / 2, 1 / 2]]"

definition tied_data :: vec where
  "tied_data = [4, - 2, 2, - 4, 2, - 4, 4, - 2, - 2, 4, - 4, 2,
                4, 2, - 2, - 4, - 4, - 2, 2, 4, - 2, - 4, 4, 2]"

text \<open>The list whose entry \<open>j\<close> is entry \<open>q j\<close> of the given list.\<close>

definition reorder :: "(nat \<Rightarrow> nat) \<Rightarrow> nat \<Rightarrow> 'a list \<Rightarrow> 'a list" where
  "reorder q n xs = map (\<lambda>j. xs ! q j) [0..<n]"

definition tied_data_rev :: vec where
  "tied_data_rev = [- 2, - 4, 4, 2, - 4, - 2, 2, 4, 4, 2, - 2, - 4,
                    - 2, 4, - 4, 2, 2, - 4, 4, - 2, 4, - 2, 2, - 4]"

text \<open>A double whose square is beyond \<open>DBL_MAX\<close>, and the array of the feature-rich run
  with every entry multiplied by it.\<close>

definition huge :: real where
  "huge = 2 ^ 600"

definition big_data :: vec where
  "big_data = map ((*) huge) [1, - 1, 1, - 1, 2, 2, - 2, - 2]"

text \<open>A decomposition routine that knows the correlation matrix of two slices with
  correlation 3/5: eigenvalues 2/5 and 8/5, both simple, in ascending order, with
  orthonormal eigenvectors (\<open>lapack_pair_genuine\<close> below).\<close>

definition pair_U :: mat where
  "pair_U = [[1 / sqrt 2, 1 / sqrt 2], [- (1 / sqrt 2), 1 / sqrt 2]]"

definition lapack_pair :: "mat \<Rightarrow> (vec \<times> mat) option" where
  "lapack_pair m = (if m = [[1, 3 / 5], [3 / 5, 1]] then Some ([2 / 5, 8 / 5], pair_U) else None)"

definition arma_pair :: armadillo where
  "arma_pair = \<lparr>eig_sym = lapack_pair, sort_index_descend = sort_first,
      empty_vec_n_cols = 0, cor_single = None\<rparr>"

section \<open>The first loop\<close>

lemma store_row_gen_other:
  "(\<forall>j<m. x \<noteq> base + i + n * j) \<Longrightarrow>
   fold (\<lambda>j g. g(base + i + n * j := r ! j)) [0..<m] h x = h x"
  by (induction m) auto

lemma store_row_gen_hit:
  "0 < n \<Longrightarrow> j < m \<Longrightarrow>
   fold (\<lambda>j g. g(base + i + n * j := r ! j)) [0..<m] h (base + i + n * j) = r ! j"
proof (induction m)
  case 0 then show ?case by simp
next
  case (Suc m)
  show ?case
  proof (cases "j = m")
    case True then show ?thesis by simp
  next
    case False
    with Suc have "j < m" by simp
    with Suc False show ?thesis by simp
  qed
qed

lemma store_row_other:
  "(\<forall>j<length r. x \<noteq> base + i + n * j) \<Longrightarrow> store_row base n i r h x = h x"
  unfolding store_row_def by (rule store_row_gen_other)

lemma store_row_hit:
  "0 < n \<Longrightarrow> j < length r \<Longrightarrow> store_row base n i r h (base + i + n * j) = r ! j"
  unfolding store_row_def by (rule store_row_gen_hit)

lemma slice_cong:
  "(\<forall>x<b. h x = g x) \<Longrightarrow> begin_addr a + dim0 a * dim1 a * dim2 a \<le> b \<Longrightarrow> i < dim2 a
   \<Longrightarrow> slice h a i = slice g a i"
proof -
  assume eq: "\<forall>x<b. h x = g x" and le: "begin_addr a + dim0 a * dim1 a * dim2 a \<le> b" and i: "i < dim2 a"
  have "dim0 a * dim1 a * i + dim0 a * dim1 a = dim0 a * dim1 a * Suc i" by simp
  also have "\<dots> \<le> dim0 a * dim1 a * dim2 a" using i by (intro mult_le_mono2) simp
  finally have "\<And>t. t < dim0 a * dim1 a \<Longrightarrow> begin_addr a + dim0 a * dim1 a * i + t < b"
    using le by linarith
  then show ?thesis unfolding slice_def using eq by simp
qed

lemma length_slice: "length (slice h a i) = dim0 a * dim1 a"
  by (simp add: slice_def)

lemma row_addr_inj:
  fixes i m n j j' :: nat
  assumes "i < n" "m < n" "i + n * j = m + n * j'"
  shows "i = m"
proof -
  have "(i + n * j) mod n = (m + n * j') mod n" by (rule arg_cong [OF assms(3)])
  moreover have "(i + n * j) mod n = i" using assms(1) by simp
  moreover have "(m + n * j') mod n = m" using assms(2) by simp
  ultimately show ?thesis by linarith
qed

lemma fill_step_inv:
  assumes inv: "fill_inv a b h0 m h"
    and le: "begin_addr a + dim0 a * dim1 a * dim2 a \<le> b"
    and m: "m < dim2 a"
  shows "fill_inv a b h0 (Suc m) (fill_step a b (b + dim2 a) m h)"
proof -
  let ?n = "dim2 a" and ?k = "dim0 a * dim1 a"
  let ?h1 = "h(b + m := accu (map (\<lambda>x. x * x) (slice h0 a m)))"
  let ?r = "slice h0 a m"
  from inv have low: "\<forall>x<b. h x = h0 x" by (simp add: fill_inv_def)
  have s0: "slice h a m = ?r" using slice_cong [OF low le m] .
  have low1: "\<forall>x<b. ?h1 x = h0 x" using low by simp
  have s1: "slice ?h1 a m = ?r" using slice_cong [OF low1 le m] .
  have step: "fill_step a b (b + ?n) m h = store_row (b + ?n) ?n m ?r ?h1"
    by (simp add: fill_step_def Let_def s0 s1)
  have lr: "length ?r = ?k" by (rule length_slice)
  have A: "\<forall>x<b. store_row (b + ?n) ?n m ?r ?h1 x = h0 x"
  proof (intro allI impI)
    fix x assume x: "x < b"
    have "store_row (b + ?n) ?n m ?r ?h1 x = ?h1 x"
      using x by (intro store_row_other) auto
    then show "store_row (b + ?n) ?n m ?r ?h1 x = h0 x" using low x by simp
  qed
  have B: "\<forall>i<Suc m. store_row (b + ?n) ?n m ?r ?h1 (b + i) = accu (map (\<lambda>x. x * x) (slice h0 a i))"
  proof (intro allI impI)
    fix i assume i: "i < Suc m"
    have "store_row (b + ?n) ?n m ?r ?h1 (b + i) = ?h1 (b + i)"
      using i m by (intro store_row_other) auto
    then show "store_row (b + ?n) ?n m ?r ?h1 (b + i) = accu (map (\<lambda>x. x * x) (slice h0 a i))"
      using inv i s0 by (cases "i = m") (auto simp: fill_inv_def)
  qed
  have C: "\<forall>i<Suc m. \<forall>j<?k. store_row (b + ?n) ?n m ?r ?h1 (b + ?n + i + ?n * j) = slice h0 a i ! j"
  proof (intro allI impI)
    fix i j assume i: "i < Suc m" and j: "j < ?k"
    show "store_row (b + ?n) ?n m ?r ?h1 (b + ?n + i + ?n * j) = slice h0 a i ! j"
    proof (cases "i = m")
      case True
      then show ?thesis using store_row_hit [of ?n j ?r "b + ?n" m ?h1] m j lr by simp
    next
      case False
      have ne: "\<forall>j'<length ?r. b + ?n + i + ?n * j \<noteq> b + ?n + m + ?n * j'"
      proof (intro allI impI notI)
        fix j' assume "b + ?n + i + ?n * j = b + ?n + m + ?n * j'"
        then have "i + ?n * j = m + ?n * j'" by simp
        with row_addr_inj [of i ?n m j j'] i m False show False by simp
      qed
      have "store_row (b + ?n) ?n m ?r ?h1 (b + ?n + i + ?n * j) = ?h1 (b + ?n + i + ?n * j)"
        by (rule store_row_other [OF ne])
      also have "\<dots> = h (b + ?n + i + ?n * j)" using m by simp
      also have "\<dots> = slice h0 a i ! j" using inv i j False by (simp add: fill_inv_def)
      finally show ?thesis .
    qed
  qed
  show ?thesis unfolding step fill_inv_def using A B C by blast
qed

lemma fill_loop_gen:
  assumes le: "begin_addr a + dim0 a * dim1 a * dim2 a \<le> b"
  shows "m \<le> dim2 a \<Longrightarrow> fill_inv a b h0 m (fold (fill_step a b (b + dim2 a)) [0..<m] h0)"
proof (induction m)
  case 0 then show ?case by (simp add: fill_inv_def)
next
  case (Suc m)
  then have "fill_inv a b h0 m (fold (fill_step a b (b + dim2 a)) [0..<m] h0)" by simp
  from fill_step_inv [OF this le] Suc.prems show ?case by simp
qed

lemma fill_loop_inv:
  "begin_addr a + dim0 a * dim1 a * dim2 a \<le> b \<Longrightarrow>
   fill_inv a b h0 (dim2 a) (fill_loop a b (b + dim2 a) h0)"
  unfolding fill_loop_def by (rule fill_loop_gen) simp_all

lemma load_after_fill:
  assumes "begin_addr a + dim0 a * dim1 a * dim2 a \<le> b"
  shows "load_vec (fill_loop a b (b + dim2 a) h0) b (dim2 a) = aa_of (samples_of h0 a)"
    and "load_mat (fill_loop a b (b + dim2 a) h0) (b + dim2 a) (dim2 a) (dim0 a * dim1 a) = samples_of h0 a"
    and "\<forall>x<b. fill_loop a b (b + dim2 a) h0 x = h0 x"
proof -
  note I = fill_loop_inv [OF assms, of h0, unfolded fill_inv_def]
  show "load_vec (fill_loop a b (b + dim2 a) h0) b (dim2 a) = aa_of (samples_of h0 a)"
    using I by (simp add: load_vec_def aa_of_def samples_of_def)
  show "load_mat (fill_loop a b (b + dim2 a) h0) (b + dim2 a) (dim2 a) (dim0 a * dim1 a) = samples_of h0 a"
    using I by (auto simp: load_mat_def samples_of_def list_eq_iff_nth_eq length_slice)
  show "\<forall>x<b. fill_loop a b (b + dim2 a) h0 x = h0 x" using I by blast
qed

section \<open>The call as a function of the caller's array\<close>

lemma scaleproc_result:
  assumes "wf_call a w"
  shows "fst (scaleproc lib a w) =
         fst (estimate lib (dim2 a) (dim0 a * dim1 a)
                (aa_of (samples_of (heap w) a)) (samples_of (heap w) a))"
proof -
  from assms have le: "begin_addr a + dim0 a * dim1 a * dim2 a \<le> brk w"
    by (simp add: wf_call_def)
  show ?thesis
    by (simp add: scaleproc_def Let_def load_after_fill [OF le] split: prod.split)
qed

lemma scaleproc_heap:
  assumes "wf_call a w" and "x < brk w"
  shows "heap (snd (scaleproc lib a w)) x = heap w x"
proof -
  from assms have le: "begin_addr a + dim0 a * dim1 a * dim2 a \<le> brk w"
    by (simp add: wf_call_def)
  show ?thesis using load_after_fill(3) [OF le, of "heap w"] assms(2)
    by (simp add: scaleproc_def Let_def split: prod.split)
qed

lemma scaleproc_brk: "brk (snd (scaleproc lib a w)) = brk w"
  by (simp add: scaleproc_def Let_def split: prod.split)

lemma samples_of_cong:
  assumes "\<forall>x<b. h x = g x" and "begin_addr a + dim0 a * dim1 a * dim2 a \<le> b"
  shows "samples_of h a = samples_of g a"
  unfolding samples_of_def using slice_cong [OF assms] by simp

lemma samples_of_moved:
  assumes "dim0 a' = dim0 a" and "dim1 a' = dim1 a" and "dim2 a' = dim2 a"
    and "\<forall>t<dim0 a * dim1 a * dim2 a. h' (begin_addr a' + t) = h (begin_addr a + t)"
  shows "samples_of h' a' = samples_of h a"
proof -
  have "slice h' a' i = slice h a i" if i: "i < dim2 a" for i
  proof -
    have "h' (begin_addr a' + dim0 a * dim1 a * i + t) = h (begin_addr a + dim0 a * dim1 a * i + t)"
      if t: "t < dim0 a * dim1 a" for t
    proof -
      have "dim0 a * dim1 a * i + t < dim0 a * dim1 a * i + dim0 a * dim1 a" using t by simp
      also have "\<dots> = dim0 a * dim1 a * Suc i" by simp
      also have "\<dots> \<le> dim0 a * dim1 a * dim2 a" using i by (intro mult_le_mono2) simp
      finally have "dim0 a * dim1 a * i + t < dim0 a * dim1 a * dim2 a" .
      with assms(4) have "h' (begin_addr a' + (dim0 a * dim1 a * i + t))
          = h (begin_addr a + (dim0 a * dim1 a * i + t))" by blast
      then show ?thesis by (simp add: add.assoc)
    qed
    then show ?thesis by (simp add: slice_def assms(1,2))
  qed
  then show ?thesis by (simp add: samples_of_def assms(3))
qed

text \<open>
  Claim C8: the call never modifies the caller's array. Every cell of the array holds after
  the call what it held before, although the cube is a view of that memory: the loop writes
  only to \<open>aa\<close> and \<open>omat\<close>, which lie in fresh storage.
\<close>

theorem input_array_unchanged:
  assumes "wf_call a w"
    and "begin_addr a \<le> x" and "x < begin_addr a + dim0 a * dim1 a * dim2 a"
  shows "heap (snd (scaleproc lib a w)) x = heap w x"
proof -
  from assms(1,3) have "x < brk w" by (simp add: wf_call_def)
  with assms(1) show ?thesis by (rule scaleproc_heap)
qed


text \<open>
  Claim C3: the samples-rich path is taken exactly when the number of slices exceeds the
  number of features \<open>dim0 * dim1\<close>, the feature-rich path otherwise; with equal numbers
  the feature-rich path is taken, since the test of line 40 is strict.
\<close>

theorem branch_condition:
  assumes "wf_call a w" and "0 < dim2 a" and "0 < dim0 a * dim1 a"
  shows "(path_taken n k = SamplesRich \<longleftrightarrow> k < n)
       \<and> (path_taken n k = FeatureRich \<longleftrightarrow> n \<le> k)
       \<and> path_taken k k = FeatureRich
       \<and> (dim0 a * dim1 a < dim2 a \<longrightarrow>
            fst (scaleproc lib a w) =
            samples_rich lib (dim2 a) (dim0 a * dim1 a)
              (aa_of (samples_of (heap w) a)) (samples_of (heap w) a))
       \<and> (dim2 a \<le> dim0 a * dim1 a \<longrightarrow>
            fst (scaleproc lib a w) =
            feature_rich lib (dim2 a) (dim0 a * dim1 a)
              (aa_of (samples_of (heap w) a)) (samples_of (heap w) a))"
  using assms(2,3)
  by (auto simp: scaleproc_result [OF assms(1)] estimate_def path_taken_def split: sum.splits)

lemma array_of_sel [simp]:
  "begin_addr (array_of r c n) = 0" "dim0 (array_of r c n) = r"
  "dim1 (array_of r c n) = c" "dim2 (array_of r c n) = n"
  by (simp_all add: array_of_def)

lemma world_of_sel [simp]:
  "heap (world_of xs) = heap_of xs" "brk (world_of xs) = length xs" "console (world_of xs) = []"
  by (simp_all add: world_of_def)

lemma wf_small: "wf_call (array_of 1 2 3) (world_of [1, 1, 1, 2, 3, 5])"
  by (simp add: wf_call_def)

theorem input_array_unchanged_witness:
  "wf_call (array_of 1 2 3) (world_of [1, 1, 1, 2, 3, 5])
   \<and> begin_addr (array_of 1 2 3) \<le> 4
   \<and> 4 < begin_addr (array_of 1 2 3) + dim0 (array_of 1 2 3) * dim1 (array_of 1 2 3) * dim2 (array_of 1 2 3)
   \<and> heap (snd (scaleproc arma_old (array_of 1 2 3) (world_of [1, 1, 1, 2, 3, 5]))) 4 = 3"
proof -
  have 1: "begin_addr (array_of 1 2 3) \<le> 4" by simp
  have 2: "4 < begin_addr (array_of 1 2 3) + dim0 (array_of 1 2 3) * dim1 (array_of 1 2 3) * dim2 (array_of 1 2 3)"
    by simp
  have 3: "heap (world_of [1, 1, 1, 2, 3, 5]) 4 = 3" by (simp add: heap_of_def)
  show ?thesis using wf_small 1 2 3 input_array_unchanged [OF wf_small 1 2, of arma_old] by simp
qed

theorem branch_condition_witness:
  "wf_call (array_of 2 1 2) (world_of [1, 2, 3, 5])
   \<and> 0 < dim2 (array_of 2 1 2) \<and> 0 < dim0 (array_of 2 1 2) * dim1 (array_of 2 1 2)
   \<and> dim2 (array_of 2 1 2) = dim0 (array_of 2 1 2) * dim1 (array_of 2 1 2)
   \<and> path_taken 2 2 = FeatureRich
   \<and> fst (scaleproc arma_old (array_of 2 1 2) (world_of [1, 2, 3, 5])) =
       feature_rich arma_old 2 2 [5, 34] [[1, 2], [3, 5]]"
proof -
  have wf: "wf_call (array_of 2 1 2) (world_of [1, 2, 3, 5])"
    by (simp add: wf_call_def)
  have n: "0 < dim2 (array_of 2 1 2)" and k: "0 < dim0 (array_of 2 1 2) * dim1 (array_of 2 1 2)"
    by simp_all
  have om: "samples_of (heap (world_of [1, 2, 3, 5])) (array_of 2 1 2) = [[1, 2], [3, 5]]"
    by (simp add: samples_of_def slice_def heap_of_def upt_rec)
  have aa: "aa_of [[1, 2], [3, 5]] = [5, 34]" by (simp add: aa_of_def accu_def)
  note B = branch_condition [OF wf n k, of 2 2 arma_old, unfolded om aa]
  show ?thesis using B wf by simp
qed

section \<open>Length and sign of the result, and the scale factor\<close>

lemma length_samples_of [simp]: "length (samples_of h a) = dim2 a"
  by (simp add: samples_of_def)

lemma length_aa_of [simp]: "length (aa_of om) = length om"
  by (simp add: aa_of_def)

lemma sum_list_squares_nonneg: "0 \<le> (\<Sum>x\<leftarrow>r. x * x :: real)"
  by (induction r) simp_all

lemma aa_of_nth: "i < length om \<Longrightarrow> aa_of om ! i = (\<Sum>x\<leftarrow>om ! i. x * x)"
  by (simp add: aa_of_def accu_def)

lemma aa_of_nonneg: "x \<in> set (aa_of om) \<Longrightarrow> 0 \<le> x"
  by (auto simp: aa_of_def accu_def sum_list_squares_nonneg)

lemma elem_le_sum_list:
  fixes xs :: "real list"
  shows "(\<forall>y\<in>set xs. 0 \<le> y) \<Longrightarrow> x \<in> set xs \<Longrightarrow> x \<le> sum_list xs"
proof (induction xs)
  case Nil then show ?case by simp
next
  case (Cons y ys)
  have "0 \<le> sum_list ys" using Cons.prems(1) by (intro sum_list_nonneg) simp
  then show ?case using Cons by auto
qed

lemma sqrt_ratio_ge_1:
  fixes s x :: real
  assumes "0 < x" "x \<le> s"
  shows "1 \<le> sqrt (s / x)"
proof -
  have "1 \<le> s / x" using assms by simp
  then show ?thesis by simp
qed

lemma DBL_MAX_ge: "2 ^ 1000 \<le> DBL_MAX"
  by (simp add: DBL_MAX_def)

lemma DBL_MAX_less: "DBL_MAX < 2 ^ 1024"
  by (simp add: DBL_MAX_def)

lemma DBL_MIN_le: "DBL_MIN \<le> 1 / 2 ^ 1000"
  by (simp add: DBL_MIN_def)

lemma not_overflows: "x \<le> 2 ^ 1000 \<Longrightarrow> \<not> overflows x"
  using DBL_MAX_ge by (simp add: overflows_def)

lemma overflows_big: "2 ^ 1024 \<le> x \<Longrightarrow> overflows x"
  using DBL_MAX_less by (simp add: overflows_def)

lemma not_underflows: "1 / 2 ^ 1000 \<le> x \<Longrightarrow> \<not> underflows x"
  using DBL_MIN_le by (simp add: underflows_def)

lemma not_underflows_zero [simp]: "\<not> underflows 0"
  by (simp add: underflows_def)

lemma not_overflows_zero [simp]: "\<not> overflows 0"
  using not_overflows [of 0] by simp

lemma in_range_moderate: "1 / 2 ^ 1000 \<le> \<bar>x\<bar> \<Longrightarrow> \<bar>x\<bar> \<le> 2 ^ 1000 \<Longrightarrow> in_range x"
  by (simp add: in_range_def not_overflows not_underflows)

lemma in_range_zero [simp]: "in_range 0"
  by (simp add: in_range_def)

lemma not_overflows_sqrt:
  assumes "0 \<le> r" and "r \<le> 2 ^ 1000" and "\<bar>v\<bar> \<le> 1"
  shows "\<not> overflows \<bar>sqrt r * v\<bar>"
proof -
  have "sqrt r \<le> sqrt ((2 ^ 500)\<^sup>2)" using assms(2) by (simp only: real_sqrt_le_iff) simp
  then have "sqrt r \<le> 2 ^ 500" by simp
  moreover have "\<bar>sqrt r * v\<bar> \<le> sqrt r * 1"
    unfolding abs_mult using assms(1,3) by (intro mult_mono) simp_all
  ultimately have "\<bar>sqrt r * v\<bar> \<le> 2 ^ 1000" by simp
  then show ?thesis by (rule not_overflows)
qed

lemma not_overflows_sqrt_plain:
  "0 \<le> r \<Longrightarrow> r \<le> 2 ^ 1000 \<Longrightarrow> \<not> overflows (sqrt r)"
  using not_overflows_sqrt [of r 1] by simp

lemma scaled_entry_Fin:
  assumes "0 \<le> x" and "x \<le> sum_list aa"
    and "is_Fin (ieee_abs_times (scale_factor aa x) v)"
  shows "x \<noteq> 0" and "\<not> overflows (sum_list aa)" and "\<not> overflows (sum_list aa / x)"
    and "fin_value (ieee_abs_times (scale_factor aa x) v) = \<bar>sqrt (sum_list aa / x) * v\<bar>"
    and "\<not> overflows \<bar>sqrt (sum_list aa / x) * v\<bar>"
proof -
  show s: "\<not> overflows (sum_list aa)"
  proof
    assume "overflows (sum_list aa)"
    then have "to_double (sum_list aa) = PInf" by (simp add: to_double_def)
    then have "\<not> is_Fin (ieee_abs_times (scale_factor aa x) v)"
      by (cases "to_double x") (simp_all add: scale_factor_def)
    with assms(3) show False by simp
  qed
  then have "\<not> overflows x" using assms(2) by (simp add: overflows_def)
  with s have tx: "to_double x = Fin x" and ts: "to_double (sum_list aa) = Fin (sum_list aa)"
    by (simp_all add: to_double_def)
  show x0: "x \<noteq> 0"
  proof
    assume "x = 0"
    then have "\<not> is_Fin (ieee_abs_times (scale_factor aa x) v)"
      using tx by (simp add: scale_factor_def ts)
    with assms(3) show False by simp
  qed
  show r: "\<not> overflows (sum_list aa / x)"
  proof
    assume "overflows (sum_list aa / x)"
    then have "\<not> is_Fin (ieee_abs_times (scale_factor aa x) v)"
      using x0 unfolding scale_factor_def tx ts by (simp add: to_double_def)
    with assms(3) show False by simp
  qed
  have nn: "\<not> sum_list aa / x < 0" using assms(1,2) by (simp add: not_less)
  have f: "scale_factor aa x = Fin (sqrt (sum_list aa / x))"
    using x0 r nn unfolding scale_factor_def tx ts by (simp add: to_double_def)
  show o: "\<not> overflows \<bar>sqrt (sum_list aa / x) * v\<bar>"
    using assms(3) unfolding f by (simp add: to_double_def split: if_splits)
  then show "fin_value (ieee_abs_times (scale_factor aa x) v) = \<bar>sqrt (sum_list aa / x) * v\<bar>"
    unfolding f by (simp add: to_double_def)
qed

lemma scaled_entry_value:
  assumes "0 < x" and "x \<le> sum_list aa" and "\<not> overflows (sum_list aa)"
    and "\<not> overflows (sum_list aa / x)" and "\<not> overflows \<bar>sqrt (sum_list aa / x) * v\<bar>"
  shows "ieee_abs_times (scale_factor aa x) v = Fin \<bar>sqrt (sum_list aa / x) * v\<bar>"
proof -
  have "\<not> sum_list aa / x < 0" using assms(1,2) by (simp add: not_less)
  moreover have "\<not> overflows x" using assms(2,3) by (simp add: overflows_def)
  ultimately show ?thesis
    using assms by (simp add: scale_factor_def to_double_def)
qed

lemma weights_value:
  assumes len: "length c = length aa"
    and pos: "\<forall>x\<in>set aa. 0 < x \<and> \<not> underflows x"
    and sum: "\<not> overflows (sum_list aa)"
    and ent: "\<forall>(x, v)\<in>set (zip aa c).
                \<not> overflows (sum_list aa / x) \<and> \<not> overflows \<bar>sqrt (sum_list aa / x) * v\<bar>"
  shows "weights aa c = Inr (map (\<lambda>(x, v). \<bar>sqrt (sum_list aa / x) * v\<bar>) (zip aa c))"
proof -
  have nn: "\<forall>y\<in>set aa. 0 \<le> y" using pos by auto
  have e: "ieee_abs_times (scale_factor aa x) v = Fin \<bar>sqrt (sum_list aa / x) * v\<bar>"
    if "(x, v) \<in> set (zip aa c)" for x v
  proof -
    from that have x: "x \<in> set aa" by (rule set_zip_leftD)
    then have "0 < x" using pos by blast
    moreover have "x \<le> sum_list aa" using elem_le_sum_list [OF nn x] .
    moreover from ent that have "\<not> overflows (sum_list aa / x)"
      "\<not> overflows \<bar>sqrt (sum_list aa / x) * v\<bar>" by auto
    ultimately show ?thesis using sum by (intro scaled_entry_value)
  qed
  then have m: "map (\<lambda>(x, v). ieee_abs_times (scale_factor aa x) v) (zip aa c)
        = map (\<lambda>(x, v). Fin \<bar>sqrt (sum_list aa / x) * v\<bar>) (zip aa c)"
    by (intro map_cong) auto
  have u: "\<not> (\<exists>x\<in>set aa. underflows x)" using pos by blast
  show ?thesis
    unfolding weights_def Let_def m using len u
    by (simp add: o_def split_def)
qed

lemma weights_Inr_gen:
  assumes "weights aa c = Inr h" and "\<forall>y\<in>set aa. 0 \<le> y"
  shows "length c = length aa" "length h = length aa"
    "\<And>i. i < length aa \<Longrightarrow> aa ! i \<noteq> 0 \<and> 0 \<le> sum_list aa / aa ! i
        \<and> h ! i = \<bar>sqrt (sum_list aa / aa ! i) * c ! i\<bar>"
proof -
  let ?g = "\<lambda>(x, v). ieee_abs_times (scale_factor aa x) v"
  from assms(1) have len: "length c = length aa"
    and ok: "\<not> (\<exists>y\<in>set (map ?g (zip aa c)). \<not> is_Fin y)"
    and h: "h = map fin_value (map ?g (zip aa c))"
    by (auto simp: weights_def Let_def split: if_splits)
  show "length c = length aa" by (rule len)
  show "length h = length aa" using h len by simp
  fix i assume i: "i < length aa"
  then have mem: "aa ! i \<in> set aa" by simp
  then have x: "0 \<le> aa ! i" using assms(2) by blast
  have le: "aa ! i \<le> sum_list aa" using elem_le_sum_list [OF assms(2) mem] .
  have "\<forall>y\<in>set (zip aa c). is_Fin (?g y)" using ok by auto
  moreover have "zip aa c ! i \<in> set (zip aa c)" using i len by (intro nth_mem) simp
  ultimately have "is_Fin (?g (zip aa c ! i))" by blast
  then have fin: "is_Fin (ieee_abs_times (scale_factor aa (aa ! i)) (c ! i))" using i len by simp
  have "h ! i = fin_value (ieee_abs_times (scale_factor aa (aa ! i)) (c ! i))"
    using h i len by simp
  with scaled_entry_Fin [OF x le fin] x le
  show "aa ! i \<noteq> 0 \<and> 0 \<le> sum_list aa / aa ! i
        \<and> h ! i = \<bar>sqrt (sum_list aa / aa ! i) * c ! i\<bar>" by simp
qed

lemma weights_Inr:
  assumes "weights (aa_of om) c = Inr h"
  shows "length c = length (aa_of om)" "length h = length (aa_of om)"
    "\<And>i. i < length (aa_of om) \<Longrightarrow> aa_of om ! i \<noteq> 0 \<and> 0 \<le> sum_list (aa_of om) / aa_of om ! i
        \<and> h ! i = \<bar>sqrt (sum_list (aa_of om) / aa_of om ! i) * c ! i\<bar>"
proof -
  have nn: "\<forall>y\<in>set (aa_of om). 0 \<le> y" using aa_of_nonneg by blast
  show "length c = length (aa_of om)" "length h = length (aa_of om)"
    using weights_Inr_gen(1,2) [OF assms nn] by simp_all
  fix i assume "i < length (aa_of om)"
  from weights_Inr_gen(3) [OF assms nn this]
  show "aa_of om ! i \<noteq> 0 \<and> 0 \<le> sum_list (aa_of om) / aa_of om ! i
        \<and> h ! i = \<bar>sqrt (sum_list (aa_of om) / aa_of om ! i) * c ! i\<bar>" .
qed

lemma estimate_Inr:
  assumes "fst (estimate lib nn kk aa omat) = Inr h"
  shows "\<exists>c. (if kk < nn then rich_column lib nn kk omat else feature_column lib nn kk omat) = Inr c
            \<and> weights aa c = Inr h"
  using assms
  by (auto simp: estimate_def path_taken_def samples_rich_def feature_rich_def
           split: if_splits sum.splits)

text \<open>A sum of squares beyond \<open>DBL_MAX\<close> is infinity in \<open>aa\<close> and in \<open>aasum\<close>; the final
  scaling then holds NaN or infinity, whatever the library answered before, and no vector
  of finite numbers is returned.\<close>

lemma overflowed_aa_no_vector:
  assumes "wf_call a w" and "i < dim2 a" and "overflows (aa_of (samples_of (heap w) a) ! i)"
  shows "fst (scaleproc lib a w) \<noteq> Inr h"
proof
  let ?om = "samples_of (heap w) a"
  let ?aa = "aa_of ?om"
  assume "fst (scaleproc lib a w) = Inr h"
  with assms(1) have "fst (estimate lib (dim2 a) (dim0 a * dim1 a) ?aa ?om) = Inr h"
    by (simp add: scaleproc_result)
  then obtain c where w: "weights ?aa c = Inr h" using estimate_Inr by blast
  let ?g = "\<lambda>(x, v). ieee_abs_times (scale_factor ?aa x) v"
  from w have len: "length c = length ?aa"
    and ok: "\<not> (\<exists>y\<in>set (map ?g (zip ?aa c)). \<not> is_Fin y)"
    by (auto simp: weights_def Let_def split: if_splits)
  have i: "i < length ?aa" using assms(2) by simp
  then have mem: "?aa ! i \<in> set ?aa" by simp
  have nn: "\<forall>y\<in>set ?aa. 0 \<le> y" using aa_of_nonneg by blast
  have x: "0 \<le> ?aa ! i" using nn mem by blast
  have le: "?aa ! i \<le> sum_list ?aa" using elem_le_sum_list [OF nn mem] .
  have "zip ?aa c ! i \<in> set (zip ?aa c)" using i len by (intro nth_mem) simp
  with ok have "is_Fin (?g (zip ?aa c ! i))" by auto
  then have fin: "is_Fin (ieee_abs_times (scale_factor ?aa (?aa ! i)) (c ! i))" using i len by simp
  from scaled_entry_Fin(2) [OF x le fin] have "\<not> overflows (sum_list ?aa)" .
  with le have "\<not> overflows (?aa ! i)" by (simp add: overflows_def)
  with assms(3) show False by contradiction
qed

text \<open>
  Claim C4, as the code has it: whenever the call returns a vector of finite numbers, in
  either branch, the vector has one entry for each slice and every entry is non-negative.
  A run in which the code divides by zero, a sum of squares overflows or the library
  raises is a failure of the model and returns no such vector. (A positive sum of squares
  in every sample does not make the call return one: a sample whose entries are all equal
  has variance zero.)
\<close>

theorem weights_length_nonneg:
  assumes "wf_call a w" and "fst (scaleproc lib a w) = Inr h"
  shows "length h = dim2 a \<and> (\<forall>x\<in>set h. 0 \<le> x)"
proof -
  let ?om = "samples_of (heap w) a"
  from assms have "fst (estimate lib (dim2 a) (dim0 a * dim1 a) (aa_of ?om) ?om) = Inr h"
    by (simp add: scaleproc_result)
  then obtain c where w: "weights (aa_of ?om) c = Inr h"
    using estimate_Inr by blast
  have len: "length h = dim2 a" using weights_Inr(2) [OF w] by simp
  have "0 \<le> x" if "x \<in> set h" for x
  proof -
    from that obtain i where i: "i < length h" and x: "x = h ! i" by (auto simp: in_set_conv_nth)
    from i len have "i < length (aa_of ?om)" by simp
    from weights_Inr(3) [OF w this] x show ?thesis by simp
  qed
  with len show ?thesis by blast
qed

lemma scale_factor_ge_1:
  assumes "0 < x" and "x \<le> sum_list aa" and "\<not> overflows x"
  shows "ieee_le (Fin 1) (scale_factor aa x)"
proof (cases "overflows (sum_list aa)")
  case True
  then show ?thesis using assms by (simp add: scale_factor_def to_double_def)
next
  case False
  show ?thesis
  proof (cases "overflows (sum_list aa / x)")
    case True
    then show ?thesis
      using assms \<open>\<not> overflows (sum_list aa)\<close> by (simp add: scale_factor_def to_double_def)
  next
    case False
    have "\<not> sum_list aa / x < 0" using assms(1,2) by (simp add: not_less)
    moreover have "1 \<le> sqrt (sum_list aa / x)" using sqrt_ratio_ge_1 assms(1,2) by blast
    ultimately show ?thesis
      using assms False \<open>\<not> overflows (sum_list aa)\<close>
      by (simp add: scale_factor_def to_double_def)
  qed
qed


section \<open>A run of the feature-rich branch, and a run that divides by zero\<close>

lemma samples_of_list:
  assumes "length xs = r * c * n"
  shows "samples_of (heap_of xs) (array_of r c n) = map (\<lambda>i. take (r * c) (drop (r * c * i) xs)) [0..<n]"
proof -
  have "slice (heap_of xs) (array_of r c n) i = take (r * c) (drop (r * c * i) xs)" if i: "i < n" for i
  proof -
    have "r * c * i + r * c = r * c * Suc i" by simp
    also have "\<dots> \<le> r * c * n" using i by (intro mult_le_mono2) simp
    finally have le: "r * c * i + r * c \<le> length xs" using assms by simp
    then show ?thesis
      by (auto simp: slice_def heap_of_def list_eq_iff_nth_eq)
  qed
  then show ?thesis by (simp add: samples_of_def)
qed

lemma upt_2: "[0..<2] = [0, Suc 0]" by (simp add: upt_rec)
lemma upt_3: "[0..<3] = [0, Suc 0, 2]" by (simp add: upt_rec)
lemma upt_4: "[0..<4] = [0, Suc 0, 2, 3]" by (simp add: upt_rec)

lemma two_by_four_samples:
  "samples_of (heap_of [1, - 1, 1, - 1, 2, 2, - 2, - 2]) (array_of 2 2 2)
   = [[1, - 1, 1, - 1], [2, 2, - 2, - 2]]"
  by (simp add: samples_of_list upt_2)

lemma two_by_four_aa: "aa_of [[1, - 1, 1, - 1], [2, 2, - 2, - 2]] = [4, 16]"
  by (simp add: aa_of_def accu_def)

lemma two_by_four_cor:
  "cor_t lib 4 [[1, - 1, 1, - 1], [2, 2, - 2, - 2]] = Inr [[1, 0], [0, 1]]"
  by (simp add: cor_t_def cov_def centre_def mean_def dot_def not_overflows not_underflows)

lemma lapack_identity_2: "lapack_small [[1, 0], [0, 1]] = Some ([1, 1], [[1, 0], [0, 1]])"
  by (simp add: lapack_small_def identity_mat_def tied_L_def upt_2)

lemma two_by_four_column:
  "feature_column arma_old 2 4 [[1, - 1, 1, - 1], [2, 2, - 2, - 2]] = Inr [1, 0]"
  by (simp add: feature_column_def two_by_four_cor arma_old_def lapack_identity_2
        well_shaped_def col_def)

lemma weights_4_16_first: "weights [4, 16] [1, 0] = Inr [sqrt 5, 0]"
  by (subst weights_value)
    (simp_all add: not_overflows not_underflows not_overflows_sqrt_plain)

lemma weights_4_16_second: "weights [4, 16] [0, 1] = Inr [0, sqrt (5 / 4)]"
  by (subst weights_value)
    (simp_all add: not_overflows not_underflows not_overflows_sqrt_plain)

lemma two_by_four_estimate:
  "estimate arma_old 2 4 [4, 16] [[1, - 1, 1, - 1], [2, 2, - 2, - 2]] = (Inr [sqrt 5, 0], [])"
  by (simp add: estimate_def path_taken_def feature_rich_def two_by_four_column
        weights_4_16_first)

lemma two_by_four_wf: "wf_call (array_of 2 2 2) (world_of [1, - 1, 1, - 1, 2, 2, - 2, - 2])"
  by (simp add: wf_call_def)

lemma two_by_four_result:
  "fst (scaleproc arma_old (array_of 2 2 2) (world_of [1, - 1, 1, - 1, 2, 2, - 2, - 2])) = Inr [sqrt 5, 0]"
  by (simp add: scaleproc_result [OF two_by_four_wf] two_by_four_samples two_by_four_aa two_by_four_estimate)

theorem weights_length_nonneg_witness:
  "wf_call (array_of 2 2 2) (world_of [1, - 1, 1, - 1, 2, 2, - 2, - 2])
   \<and> fst (scaleproc arma_old (array_of 2 2 2) (world_of [1, - 1, 1, - 1, 2, 2, - 2, - 2]))
       = Inr [sqrt 5, 0]
   \<and> length [sqrt 5, 0 :: real] = dim2 (array_of 2 2 2)
   \<and> 0 \<le> [sqrt 5, 0 :: real] ! 0 \<and> 0 \<le> [sqrt 5, 0 :: real] ! 1"
proof -
  note T = weights_length_nonneg [OF two_by_four_wf two_by_four_result]
  from T have "0 \<le> [sqrt 5, 0 :: real] ! 0" "0 \<le> [sqrt 5, 0 :: real] ! 1"
    by (metis nth_mem length_Cons list.size(3) zero_less_Suc, simp)
  with T two_by_four_wf two_by_four_result show ?thesis by blast
qed


lemma heap_of_Cons: "heap_of (x # xs) (Suc t) = heap_of xs t"
  by (simp add: heap_of_def)

lemma moved_wf: "wf_call moved_array moved_world"
  by (simp add: wf_call_def moved_array_def moved_world_def)


lemma constant_row_wf: "wf_call (array_of 1 2 3) (world_of [1, 1, 1, 2, 3, 5])"
  by (simp add: wf_call_def)

lemma constant_row_samples:
  "samples_of (heap_of [1, 1, 1, 2, 3, 5]) (array_of 1 2 3) = [[1, 1], [1, 2], [3, 5]]"
  by (simp add: samples_of_list upt_3)

text \<open>
  Claim C4 as stated fails: three slices of two features, all extents at least 1 and every
  sum of squares positive, but the first slice is constant. Its variance is zero, line 45
  divides by it, and no vector of non-negative numbers is returned.
\<close>

theorem constant_row_counterexample:
  "wf_call (array_of 1 2 3) (world_of [1, 1, 1, 2, 3, 5])
   \<and> 1 \<le> dim0 (array_of 1 2 3) \<and> 1 \<le> dim1 (array_of 1 2 3) \<and> 1 \<le> dim2 (array_of 1 2 3)
   \<and> aa_of (samples_of (heap (world_of [1, 1, 1, 2, 3, 5])) (array_of 1 2 3)) = [2, 5, 34]
   \<and> fst (scaleproc arma_old (array_of 1 2 3) (world_of [1, 1, 1, 2, 3, 5])) = Inl NonFinite"
proof -
  have aa: "aa_of [[1, 1], [1, 2], [3, 5]] = [2, 5, 34]" by (simp add: aa_of_def accu_def)
  have q: "qq_of 3 [1, 1] = 0" by (simp add: qq_of_def var_def mean_def)
  have "rich_eig arma_old 3 2 [[1, 1], [1, 2], [3, 5]] = Inl NonFinite"
    by (simp add: rich_eig_def q)
  then have "estimate arma_old 3 2 [2, 5, 34] [[1, 1], [1, 2], [3, 5]] = (Inl NonFinite, [])"
    by (simp add: estimate_def path_taken_def samples_rich_def rich_column_def)
  moreover have s: "samples_of (heap (world_of [1, 1, 1, 2, 3, 5])) (array_of 1 2 3) = [[1, 1], [1, 2], [3, 5]]"
    using constant_row_samples by simp
  ultimately have "fst (scaleproc arma_old (array_of 1 2 3) (world_of [1, 1, 1, 2, 3, 5])) = Inl NonFinite"
    unfolding scaleproc_result [OF constant_row_wf] by (simp add: aa)
  then show ?thesis using constant_row_wf unfolding s aa by simp
qed

section \<open>A run of the samples-rich branch with a repeated largest eigenvalue\<close>

lemma sqrt_9_100: "sqrt (9 / 100) = 3 / 10"
  by (rule real_sqrt_unique) (simp_all add: power2_eq_square)

lemma tied_qq: "r \<in> set tied_samples \<Longrightarrow> qq_of 6 r = 100 / 9"
  by (auto simp: tied_samples_def qq_of_def var_def mean_def power2_eq_square)

lemma tied_scaled:
  "scaled_omat 6 tied_samples =
     [[6 / 5, - (3 / 5), 3 / 5, - (6 / 5)], [3 / 5, - (6 / 5), 6 / 5, - (3 / 5)],
      [- (3 / 5), 6 / 5, - (6 / 5), 3 / 5], [6 / 5, 3 / 5, - (3 / 5), - (6 / 5)],
      [- (6 / 5), - (3 / 5), 3 / 5, 6 / 5], [- (3 / 5), - (6 / 5), 6 / 5, 3 / 5]]"
  by (simp add: scaled_omat_def tied_samples_def qq_of_def var_def mean_def centre_def
        power2_eq_square sqrt_9_100)

lemma tied_Lmat: "Lmat_of 4 (scaled_omat 6 tied_samples) = tied_L"
  unfolding tied_scaled
  by (simp add: Lmat_of_def mat_mul_def mat_t_def col_def dot_def upt_4 tied_L_def)

lemma tied_qq_pos: "\<not> (\<exists>r\<in>set tied_samples. qq_of 6 r \<le> 0)"
proof
  assume "\<exists>r\<in>set tied_samples. qq_of 6 r \<le> 0"
  then obtain r where "r \<in> set tied_samples" "qq_of 6 r \<le> 0" by blast
  with tied_qq [of r] show False by simp
qed

lemma tied_var: "r \<in> set tied_samples \<Longrightarrow> var r = 40 / 3"
  by (auto simp: tied_samples_def var_def mean_def power2_eq_square)

lemma tied_in_range:
  "\<forall>r\<in>set tied_samples. in_range (var r) \<and> in_range (qq_of 6 r)"
proof -
  have v: "in_range (40 / 3)" and q: "in_range (100 / 9)" by (simp_all add: in_range_moderate)
  have "in_range (var r) \<and> in_range (qq_of 6 r)" if "r \<in> set tied_samples" for r
    unfolding tied_var [OF that] tied_qq [OF that] using v q by (rule conjI)
  then show ?thesis by blast
qed

lemma tied_rich_eig:
  assumes "eig_sym lib = lapack_small"
  shows "rich_eig lib 6 4 tied_samples = Inr ([27 / 10, 27 / 10, 0, 0], tied_Urev)"
  by (simp add: rich_eig_def tied_qq_pos tied_in_range tied_Lmat assms lapack_small_def
        well_shaped_def tied_U_def tied_Urev_def usort_of_def upt_4)

lemma tied_V_of: "V_of 6 4 tied_samples tied_Urev = tied_V"
  unfolding V_of_def tied_scaled
  by (simp add: mat_mul_def col_def dot_def upt_4 tied_Urev_def tied_V_def)

lemma tied_vv: "vv_of 4 tied_V = [sqrt (54 / 5), sqrt (54 / 5), 0, 0]"
  by (simp add: vv_of_def col_def dot_def upt_4 tied_V_def)

lemma tied_delta:
  "delta_of 4 [27 / 10, 27 / 10, 0, 0] [sqrt (54 / 5), sqrt (54 / 5), 0, 0]
   = [27 / 10, 27 / 10, 0, 0]"
proof -
  have "sqrt (27 / 40) * sqrt (54 / 5) = sqrt ((27 / 10) ^ 2)"
    by (simp add: real_sqrt_mult [symmetric] power2_eq_square)
  then have "sqrt (27 / 40) * sqrt (54 / 5) = 27 / 10" by simp
  then show ?thesis by (simp add: delta_of_def)
qed

lemma tied_sort_first: "sort_first [27 / 10, 27 / 10, 0, 0] = [0, 1, 2, 3]"
  by (simp add: sort_first_def upt_4)

lemma tied_sort_last: "sort_last [27 / 10, 27 / 10, 0, 0] = [1, 0, 3, 2]"
  by (simp add: sort_last_def upt_4)

lemma sqrt_54_5_pos: "sqrt (54 / 5) \<noteq> 0" by simp

lemma tied_normalised:
  "normalised_cols 4 tied_V =
     [Some (map (\<lambda>x. x / sqrt (54 / 5)) [9 / 5, 9 / 5, - (9 / 5), 3 / 5, - (3 / 5), 3 / 5]),
      Some (map (\<lambda>x. x / sqrt (54 / 5)) [3 / 5, - (3 / 5), 3 / 5, 9 / 5, - (9 / 5), - (9 / 5)]),
      None, None]"
  unfolding normalised_cols_def tied_vv
  by (simp add: upt_4 col_def tied_V_def)

section \<open>The selected column in the samples-rich branch\<close>

lemma dot_Nil [simp]: "dot [] ys = 0" "dot xs [] = 0"
  by (simp_all add: dot_def)

lemma dot_Cons [simp]: "dot (x # xs) (y # ys) = x * y + dot xs ys"
  by (simp add: dot_def)

lemma dot_self_nonneg: "0 \<le> dot c c"
  by (induction c) simp_all

lemma dot_div_self: "dot (map (\<lambda>x. x / v) c) (map (\<lambda>x. x / v) c) = dot c c / (v * v)"
  by (induction c) (simp_all add: add_divide_distrib)

lemma vv_of_nth: "j < kk \<Longrightarrow> vv_of kk V ! j = sqrt (dot (col V j) (col V j))"
  by (simp add: vv_of_def)

lemma vv_of_nonneg: "j < kk \<Longrightarrow> 0 \<le> vv_of kk V ! j"
  by (simp add: vv_of_nth dot_self_nonneg)

lemma normalised_cols_nth:
  "j < kk \<Longrightarrow> normalised_cols kk V ! j =
     (if vv_of kk V ! j = 0 then None else Some (map (\<lambda>x. x / vv_of kk V ! j) (col V j)))"
  by (simp add: normalised_cols_def)

lemma normalised_unit:
  assumes "j < kk" and "normalised_cols kk V ! j = Some u"
  shows "vv_of kk V ! j \<noteq> 0" and "u = map (\<lambda>x. x / vv_of kk V ! j) (col V j)"
    and "sqrt (dot u u) = 1" and "length u = length V"
proof -
  let ?c = "col V j" and ?v = "vv_of kk V ! j"
  from assms show nz: "?v \<noteq> 0" and u: "u = map (\<lambda>x. x / ?v) ?c"
    by (auto simp: normalised_cols_nth split: if_splits)
  have v: "?v = sqrt (dot ?c ?c)" using assms(1) by (rule vv_of_nth)
  have sq: "?v * ?v = dot ?c ?c" unfolding v using dot_self_nonneg [of ?c] by simp
  have "?v * ?v \<noteq> 0" using nz by simp
  then have "dot ?c ?c / (?v * ?v) = 1" using sq by simp
  then have "dot u u = 1" unfolding u dot_div_self .
  then show "sqrt (dot u u) = 1" by simp
  show "length u = length V" unfolding u by (simp add: col_def)
qed

lemma rich_column_Inr:
  assumes "rich_column lib nn kk omat = Inr c"
  shows "\<exists>lam U. rich_eig lib nn kk omat = Inr (lam, U)
           \<and> sort_index_descend lib (delta_of kk lam (vv_of kk (V_of nn kk omat U))) \<noteq> []
           \<and> sort_index_descend lib (delta_of kk lam (vv_of kk (V_of nn kk omat U))) ! 0 < kk
           \<and> normalised_cols kk (V_of nn kk omat U)
               ! (sort_index_descend lib (delta_of kk lam (vv_of kk (V_of nn kk omat U))) ! 0) = Some c"
  using assms
  by (auto simp: rich_column_def Let_def split: sum.splits if_splits option.splits)

lemma length_V_of: "length (V_of nn kk omat U) = length omat"
  by (simp add: V_of_def mat_mul_def scaled_omat_def)

text \<open>
  Claim C1, as the code has it: in the branch for more samples than features the returned
  weights are \<open>h(i) = |sqrt(aasum/aa(i)) * V(i, od(0))|\<close>, where \<open>V\<close> is the matrix with
  normalised columns and \<open>od\<close> is the answer of the descending index sort of \<open>delta\<close>:
  the sort picks the column.
\<close>

theorem rich_weights_use_sorted_column:
  assumes "wf_call a w" and "dim0 a * dim1 a < dim2 a"
    and "fst (scaleproc lib a w) = Inr h"
  shows "\<exists>lam U c.
           rich_eig lib (dim2 a) (dim0 a * dim1 a) (samples_of (heap w) a) = Inr (lam, U)
         \<and> sort_index_descend lib (delta_of (dim0 a * dim1 a) lam
              (vv_of (dim0 a * dim1 a) (V_of (dim2 a) (dim0 a * dim1 a) (samples_of (heap w) a) U))) \<noteq> []
         \<and> normalised_cols (dim0 a * dim1 a)
              (V_of (dim2 a) (dim0 a * dim1 a) (samples_of (heap w) a) U)
              ! (sort_index_descend lib (delta_of (dim0 a * dim1 a) lam
                  (vv_of (dim0 a * dim1 a)
                    (V_of (dim2 a) (dim0 a * dim1 a) (samples_of (heap w) a) U))) ! 0) = Some c
         \<and> length h = dim2 a
         \<and> (\<forall>i<dim2 a. h ! i =
               \<bar>sqrt (sum_list (aa_of (samples_of (heap w) a)) / aa_of (samples_of (heap w) a) ! i)
                 * c ! i\<bar>)"
proof -
  let ?om = "samples_of (heap w) a" and ?n = "dim2 a" and ?k = "dim0 a * dim1 a"
  from assms(1,3) have "fst (estimate lib ?n ?k (aa_of ?om) ?om) = Inr h"
    by (simp add: scaleproc_result)
  from estimate_Inr [OF this] assms(2) obtain c where
    c: "rich_column lib ?n ?k ?om = Inr c" and w: "weights (aa_of ?om) c = Inr h" by auto
  from rich_column_Inr [OF c] obtain lam U where
    e: "rich_eig lib ?n ?k ?om = Inr (lam, U)"
    and od: "sort_index_descend lib (delta_of ?k lam (vv_of ?k (V_of ?n ?k ?om U))) \<noteq> []"
    and n: "normalised_cols ?k (V_of ?n ?k ?om U)
              ! (sort_index_descend lib (delta_of ?k lam (vv_of ?k (V_of ?n ?k ?om U))) ! 0) = Some c"
    by blast
  have len: "length h = ?n" using weights_Inr(2) [OF w] by simp
  have "\<forall>i<?n. h ! i = \<bar>sqrt (sum_list (aa_of ?om) / aa_of ?om ! i) * c ! i\<bar>"
    using weights_Inr(3) [OF w] by simp
  with e od n len show ?thesis by blast
qed

text \<open>
  Claim C9: in the branch for more samples than features, every column of \<open>V\<close> whose norm
  \<open>vv(j)\<close> is positive has norm 1 after the loop of lines 60 to 63; the column selected for
  a returned result is such a column \<open>u\<close>, and the weights are
  \<open>h(i) = sqrt(aasum/aa(i)) * |u(i)|\<close>.
\<close>

theorem normalised_columns_unit:
  assumes "wf_call a w" and "dim0 a * dim1 a < dim2 a"
    and "rich_eig lib (dim2 a) (dim0 a * dim1 a) (samples_of (heap w) a) = Inr (lam, U)"
  shows "(\<forall>j<dim0 a * dim1 a.
            0 < vv_of (dim0 a * dim1 a) (V_of (dim2 a) (dim0 a * dim1 a) (samples_of (heap w) a) U) ! j \<longrightarrow>
            (\<exists>u. normalised_cols (dim0 a * dim1 a)
                    (V_of (dim2 a) (dim0 a * dim1 a) (samples_of (heap w) a) U) ! j = Some u
                 \<and> sqrt (dot u u) = 1))
       \<and> (\<forall>h. fst (scaleproc lib a w) = Inr h \<longrightarrow>
            (\<exists>u. rich_column lib (dim2 a) (dim0 a * dim1 a) (samples_of (heap w) a) = Inr u
                 \<and> sqrt (dot u u) = 1 \<and> length u = dim2 a
                 \<and> (\<forall>i<dim2 a. h ! i =
                       sqrt (sum_list (aa_of (samples_of (heap w) a)) / aa_of (samples_of (heap w) a) ! i)
                       * \<bar>u ! i\<bar>)))"
proof -
  let ?om = "samples_of (heap w) a" and ?n = "dim2 a" and ?k = "dim0 a * dim1 a"
  let ?V = "V_of ?n ?k ?om U"
  have A: "\<exists>u. normalised_cols ?k ?V ! j = Some u \<and> sqrt (dot u u) = 1"
    if j: "j < ?k" and pos: "0 < vv_of ?k ?V ! j" for j
  proof -
    from pos j obtain u where u: "normalised_cols ?k ?V ! j = Some u"
      by (auto simp: normalised_cols_nth)
    from normalised_unit(3) [OF j u] u show ?thesis by blast
  qed
  have B: "\<exists>u. rich_column lib ?n ?k ?om = Inr u \<and> sqrt (dot u u) = 1 \<and> length u = ?n
             \<and> (\<forall>i<?n. h ! i = sqrt (sum_list (aa_of ?om) / aa_of ?om ! i) * \<bar>u ! i\<bar>)"
    if h: "fst (scaleproc lib a w) = Inr h" for h
  proof -
    from assms(1) h have "fst (estimate lib ?n ?k (aa_of ?om) ?om) = Inr h"
      by (simp add: scaleproc_result)
    from estimate_Inr [OF this] assms(2) obtain u where
      u: "rich_column lib ?n ?k ?om = Inr u" and w: "weights (aa_of ?om) u = Inr h" by auto
    from rich_column_Inr [OF u] obtain lam' U' where
      e: "rich_eig lib ?n ?k ?om = Inr (lam', U')"
      and lt: "sort_index_descend lib (delta_of ?k lam' (vv_of ?k (V_of ?n ?k ?om U'))) ! 0 < ?k"
      and n: "normalised_cols ?k (V_of ?n ?k ?om U')
              ! (sort_index_descend lib (delta_of ?k lam' (vv_of ?k (V_of ?n ?k ?om U'))) ! 0) = Some u"
      by blast
    have unit: "sqrt (dot u u) = 1" using normalised_unit(3) [OF lt n] .
    have len: "length u = ?n" using weights_Inr(1) [OF w] by simp
    have "h ! i = sqrt (sum_list (aa_of ?om) / aa_of ?om ! i) * \<bar>u ! i\<bar>" if "i < ?n" for i
    proof -
      from that have i: "i < length (aa_of ?om)" by simp
      from weights_Inr(3) [OF w i] show ?thesis by (simp add: abs_mult)
    qed
    with u unit len show ?thesis by blast
  qed
  from A B show ?thesis by blast
qed

lemma upt_6: "[0..<6] = [0, Suc 0, 2, 3, 4, 5]" by (simp add: upt_rec)

lemma tied_wf: "wf_call (array_of 2 2 6) (world_of tied_data)"
  by (simp add: wf_call_def tied_data_def)

lemma tied_samples_of: "samples_of (heap (world_of tied_data)) (array_of 2 2 6) = tied_samples"
  by (simp add: samples_of_list tied_data_def upt_6 tied_samples_def)

lemma tied_aa: "aa_of tied_samples = [40, 40, 40, 40, 40, 40]"
  by (simp add: aa_of_def accu_def tied_samples_def)

lemma tied_norms_in_range:
  "\<not> (\<exists>i\<in>set [0..<4]. \<not> in_range (dot (col tied_V i) (col tied_V i)))"
  by (simp add: upt_4 col_def tied_V_def in_range_moderate)

lemma tied_column_old:
  "rich_column arma_old 6 4 tied_samples =
     Inr (map (\<lambda>x. x / sqrt (54 / 5)) [9 / 5, 9 / 5, - (9 / 5), 3 / 5, - (3 / 5), 3 / 5])"
  by (simp add: rich_column_def tied_rich_eig arma_old_def tied_V_of tied_vv tied_delta
        tied_sort_first tied_normalised tied_norms_in_range not_overflows
      del: set_upt)

lemma tied_column_new:
  "rich_column arma_new 6 4 tied_samples =
     Inr (map (\<lambda>x. x / sqrt (54 / 5)) [3 / 5, - (3 / 5), 3 / 5, 9 / 5, - (9 / 5), - (9 / 5)])"
  by (simp add: rich_column_def tied_rich_eig arma_new_def tied_V_of tied_vv tied_delta
        tied_sort_last tied_normalised tied_norms_in_range not_overflows
      del: set_upt)

lemma sqrt_ratio: "sqrt 6 / sqrt (54 / 5) = sqrt 5 / 3"
proof -
  have "sqrt 6 / sqrt (54 / 5) = sqrt (6 / (54 / 5))" by (simp only: real_sqrt_divide)
  also have "\<dots> = sqrt (5 / 3\<^sup>2)" by (simp add: power2_eq_square)
  also have "\<dots> = sqrt 5 / 3" by (simp add: real_sqrt_divide)
  finally show ?thesis .
qed

lemma scaled_entry: "\<bar>sqrt 6 * (x / sqrt (54 / 5))\<bar> = \<bar>x\<bar> * (sqrt 5 / 3)"
proof -
  have "sqrt 6 * (x / sqrt (54 / 5)) = x * (sqrt 6 / sqrt (54 / 5))" by simp
  then show ?thesis by (simp only: sqrt_ratio abs_mult) simp
qed

lemma tied_weights:
  assumes "length xs = 6" and "\<forall>x\<in>set xs. \<bar>x\<bar> \<le> 2"
  shows "weights [40, 40, 40, 40, 40, 40] (map (\<lambda>x. x / sqrt (54 / 5)) xs)
         = Inr (map (\<lambda>x. \<bar>x\<bar> * (sqrt 5 / 3)) xs)"
proof -
  let ?aa = "[40, 40, 40, 40, 40, 40 :: real]" and ?c = "map (\<lambda>x. x / sqrt (54 / 5)) xs"
  have s5: "sqrt 5 \<le> 3"
  proof -
    have "sqrt 5 \<le> sqrt (3\<^sup>2)" by (simp only: real_sqrt_le_iff) simp
    then show ?thesis by simp
  qed
  have z: "set (zip ?aa ?c) \<subseteq> {40} \<times> set ?c"
    by (auto dest: set_zip_leftD set_zip_rightD)
  have ent: "\<not> overflows (sum_list ?aa / x) \<and> \<not> overflows \<bar>sqrt (sum_list ?aa / x) * v\<bar>"
    if "(x, v) \<in> set (zip ?aa ?c)" for x v
  proof -
    from that z have x: "x = 40" and "v \<in> set ?c" by auto
    then obtain y where y: "y \<in> set xs" and v: "v = y / sqrt (54 / 5)" by auto
    have "\<bar>sqrt 6 * v\<bar> = \<bar>y\<bar> * (sqrt 5 / 3)" unfolding v by (rule scaled_entry)
    also have "\<dots> \<le> 2 * 1" using assms(2) y s5 by (intro mult_mono) auto
    finally have "\<bar>sqrt 6 * v\<bar> \<le> 2 ^ 1000" by simp
    then show ?thesis using x by (simp add: not_overflows)
  qed
  have "weights ?aa ?c = Inr (map (\<lambda>(x, v). \<bar>sqrt (sum_list ?aa / x) * v\<bar>) (zip ?aa ?c))"
    using assms(1) ent by (intro weights_value) (auto simp: not_overflows not_underflows)
  also have "map (\<lambda>(x, v). \<bar>sqrt (sum_list ?aa / x) * v\<bar>) (zip ?aa ?c)
             = map (\<lambda>v. \<bar>sqrt 6 * v\<bar>) ?c"
    using assms(1) by (intro nth_equalityI) (auto simp: nth_Cons' )
  also have "\<dots> = map (\<lambda>x. \<bar>x\<bar> * (sqrt 5 / 3)) xs"
    by (simp only: map_map o_def scaled_entry)
  finally show ?thesis .
qed

lemma tied_weights_first:
  "weights [40, 40, 40, 40, 40, 40]
     (map (\<lambda>x. x / sqrt (54 / 5)) [9 / 5, 9 / 5, - (9 / 5), 3 / 5, - (3 / 5), 3 / 5])
   = Inr [3 * sqrt 5 / 5, 3 * sqrt 5 / 5, 3 * sqrt 5 / 5, sqrt 5 / 5, sqrt 5 / 5, sqrt 5 / 5]"
  by (subst tied_weights) simp_all

lemma tied_weights_second:
  "weights [40, 40, 40, 40, 40, 40]
     (map (\<lambda>x. x / sqrt (54 / 5)) [3 / 5, - (3 / 5), 3 / 5, 9 / 5, - (9 / 5), - (9 / 5)])
   = Inr [sqrt 5 / 5, sqrt 5 / 5, sqrt 5 / 5, 3 * sqrt 5 / 5, 3 * sqrt 5 / 5, 3 * sqrt 5 / 5]"
  by (subst tied_weights) simp_all

lemma tied_result_old:
  "fst (scaleproc arma_old (array_of 2 2 6) (world_of tied_data))
   = Inr [3 * sqrt 5 / 5, 3 * sqrt 5 / 5, 3 * sqrt 5 / 5, sqrt 5 / 5, sqrt 5 / 5, sqrt 5 / 5]"
  unfolding scaleproc_result [OF tied_wf] tied_samples_of tied_aa
  by (simp add: estimate_def path_taken_def samples_rich_def tied_column_old
        tied_weights_first del: list.map)

lemma tied_result_new:
  "fst (scaleproc arma_new (array_of 2 2 6) (world_of tied_data))
   = Inr [sqrt 5 / 5, sqrt 5 / 5, sqrt 5 / 5, 3 * sqrt 5 / 5, 3 * sqrt 5 / 5, 3 * sqrt 5 / 5]"
  unfolding scaleproc_result [OF tied_wf] tied_samples_of tied_aa
  by (simp add: estimate_def path_taken_def samples_rich_def tied_column_new
        tied_weights_second del: list.map)

lemma lapack_small_genuine:
  "lapack_small tied_L = Some ([0, 0, 27 / 10, 27 / 10], tied_U)
   \<and> mat_mul tied_L 4 tied_U = map (\<lambda>r. map (\<lambda>(x, l). x * l) (zip r [0, 0, 27 / 10, 27 / 10])) tied_U
   \<and> mat_mul (mat_t 4 tied_U) 4 tied_U = identity_mat 4
   \<and> sorted [0, 0, 27 / 10, 27 / 10 :: real]"
  by (simp add: lapack_small_def mat_mul_def mat_t_def col_def upt_4 tied_L_def tied_U_def
        identity_mat_def)

lemma lapack_small_identity_genuine:
  "lapack_small [[1, 0], [0, 1]] = Some ([1, 1], [[1, 0], [0, 1]])
   \<and> mat_mul [[1, 0], [0, 1]] 2 [[1, 0], [0, 1]]
       = map (\<lambda>r. map (\<lambda>(x, l). x * l) (zip r [1, 1])) [[1, 0], [0, 1]]
   \<and> mat_mul (mat_t 2 [[1, 0], [0, 1]]) 2 [[1, 0], [0, 1]] = identity_mat 2
   \<and> sorted [1, 1 :: real]"
  by (simp add: lapack_identity_2 mat_mul_def mat_t_def col_def upt_2 identity_mat_def)

lemma tied_sort_last_descending:
  "map (\<lambda>i. [27 / 10, 27 / 10, 0, 0 :: real] ! i) (sort_last [27 / 10, 27 / 10, 0, 0])
     = [27 / 10, 27 / 10, 0, 0]
   \<and> set (sort_last [27 / 10, 27 / 10, 0, 0]) = {0, 1, 2, 3}"
  by (auto simp: tied_sort_last)

lemma tied_rich: "dim0 (array_of 2 2 6) * dim1 (array_of 2 2 6) < dim2 (array_of 2 2 6)"
  by simp

text \<open>
  Claim C1 as stated fails: six slices of four features whose matrix \<open>Lmat\<close> has its largest
  eigenvalue twice, so \<open>delta(0) = delta(1)\<close>. The index sort may answer 1 first, and
  then the weights come from column 1 of \<open>V\<close>, not from column 0.
\<close>

theorem sorted_column_counterexample:
  "wf_call (array_of 2 2 6) (world_of tied_data)
   \<and> dim0 (array_of 2 2 6) * dim1 (array_of 2 2 6) < dim2 (array_of 2 2 6)
   \<and> samples_of (heap (world_of tied_data)) (array_of 2 2 6) = tied_samples
   \<and> rich_eig arma_new 6 4 tied_samples = Inr ([27 / 10, 27 / 10, 0, 0], tied_Urev)
   \<and> normalised_cols 4 (V_of 6 4 tied_samples tied_Urev) ! 0
       = Some (map (\<lambda>x. x / sqrt (54 / 5)) [9 / 5, 9 / 5, - (9 / 5), 3 / 5, - (3 / 5), 3 / 5])
   \<and> weights (aa_of tied_samples)
         (map (\<lambda>x. x / sqrt (54 / 5)) [9 / 5, 9 / 5, - (9 / 5), 3 / 5, - (3 / 5), 3 / 5])
       = Inr [3 * sqrt 5 / 5, 3 * sqrt 5 / 5, 3 * sqrt 5 / 5, sqrt 5 / 5, sqrt 5 / 5, sqrt 5 / 5]
   \<and> fst (scaleproc arma_new (array_of 2 2 6) (world_of tied_data))
       = Inr [sqrt 5 / 5, sqrt 5 / 5, sqrt 5 / 5, 3 * sqrt 5 / 5, 3 * sqrt 5 / 5, 3 * sqrt 5 / 5]
   \<and> sqrt 5 / 5 \<noteq> 3 * sqrt 5 / 5"
proof -
  have e: "rich_eig arma_new 6 4 tied_samples = Inr ([27 / 10, 27 / 10, 0, 0], tied_Urev)"
    by (rule tied_rich_eig) (simp add: arma_new_def)
  have n: "normalised_cols 4 (V_of 6 4 tied_samples tied_Urev) ! 0
       = Some (map (\<lambda>x. x / sqrt (54 / 5)) [9 / 5, 9 / 5, - (9 / 5), 3 / 5, - (3 / 5), 3 / 5])"
    unfolding tied_V_of tied_normalised by simp
  have w: "weights (aa_of tied_samples)
         (map (\<lambda>x. x / sqrt (54 / 5)) [9 / 5, 9 / 5, - (9 / 5), 3 / 5, - (3 / 5), 3 / 5])
       = Inr [3 * sqrt 5 / 5, 3 * sqrt 5 / 5, 3 * sqrt 5 / 5, sqrt 5 / 5, sqrt 5 / 5, sqrt 5 / 5]"
    unfolding tied_aa by (rule tied_weights_first)
  have d: "sqrt 5 / 5 \<noteq> 3 * sqrt 5 / 5" by simp
  from tied_wf tied_rich tied_samples_of e n w tied_result_new d show ?thesis by blast
qed

theorem rich_weights_use_sorted_column_witness:
  "wf_call (array_of 2 2 6) (world_of tied_data)
   \<and> dim0 (array_of 2 2 6) * dim1 (array_of 2 2 6) < dim2 (array_of 2 2 6)
   \<and> fst (scaleproc arma_old (array_of 2 2 6) (world_of tied_data))
       = Inr [3 * sqrt 5 / 5, 3 * sqrt 5 / 5, 3 * sqrt 5 / 5, sqrt 5 / 5, sqrt 5 / 5, sqrt 5 / 5]
   \<and> (\<exists>lam U c.
           rich_eig arma_old 6 4 tied_samples = Inr (lam, U)
         \<and> sort_index_descend arma_old (delta_of 4 lam (vv_of 4 (V_of 6 4 tied_samples U))) \<noteq> []
         \<and> normalised_cols 4 (V_of 6 4 tied_samples U)
              ! (sort_index_descend arma_old (delta_of 4 lam (vv_of 4 (V_of 6 4 tied_samples U))) ! 0)
            = Some c
         \<and> (\<forall>i<6. [3 * sqrt 5 / 5, 3 * sqrt 5 / 5, 3 * sqrt 5 / 5, sqrt 5 / 5, sqrt 5 / 5, sqrt 5 / 5] ! i =
               \<bar>sqrt (sum_list (aa_of tied_samples) / aa_of tied_samples ! i) * c ! i\<bar>))"
proof -
  note T = rich_weights_use_sorted_column [OF tied_wf tied_rich tied_result_old,
      unfolded tied_samples_of]
  have "dim0 (array_of 2 2 6) * dim1 (array_of 2 2 6) = 4" "dim2 (array_of 2 2 6) = 6" by simp_all
  with T have "\<exists>lam U c.
           rich_eig arma_old 6 4 tied_samples = Inr (lam, U)
         \<and> sort_index_descend arma_old (delta_of 4 lam (vv_of 4 (V_of 6 4 tied_samples U))) \<noteq> []
         \<and> normalised_cols 4 (V_of 6 4 tied_samples U)
              ! (sort_index_descend arma_old (delta_of 4 lam (vv_of 4 (V_of 6 4 tied_samples U))) ! 0)
            = Some c
         \<and> (\<forall>i<6. [3 * sqrt 5 / 5, 3 * sqrt 5 / 5, 3 * sqrt 5 / 5, sqrt 5 / 5, sqrt 5 / 5, sqrt 5 / 5] ! i =
               \<bar>sqrt (sum_list (aa_of tied_samples) / aa_of tied_samples ! i) * c ! i\<bar>)"
    by (simp only:) blast
  with tied_wf tied_rich tied_result_old show ?thesis by blast
qed

theorem normalised_columns_unit_witness:
  "wf_call (array_of 2 2 6) (world_of tied_data)
   \<and> dim0 (array_of 2 2 6) * dim1 (array_of 2 2 6) < dim2 (array_of 2 2 6)
   \<and> rich_eig arma_old 6 4 tied_samples = Inr ([27 / 10, 27 / 10, 0, 0], tied_Urev)
   \<and> 0 < vv_of 4 (V_of 6 4 tied_samples tied_Urev) ! 0
   \<and> (\<exists>u. normalised_cols 4 (V_of 6 4 tied_samples tied_Urev) ! 0 = Some u \<and> sqrt (dot u u) = 1)
   \<and> fst (scaleproc arma_old (array_of 2 2 6) (world_of tied_data))
       = Inr [3 * sqrt 5 / 5, 3 * sqrt 5 / 5, 3 * sqrt 5 / 5, sqrt 5 / 5, sqrt 5 / 5, sqrt 5 / 5]
   \<and> (\<exists>u. rich_column arma_old 6 4 tied_samples = Inr u \<and> sqrt (dot u u) = 1 \<and> length u = 6
          \<and> (\<forall>i<6. [3 * sqrt 5 / 5, 3 * sqrt 5 / 5, 3 * sqrt 5 / 5, sqrt 5 / 5, sqrt 5 / 5, sqrt 5 / 5] ! i =
                sqrt (sum_list (aa_of tied_samples) / aa_of tied_samples ! i) * \<bar>u ! i\<bar>))"
proof -
  have e: "rich_eig arma_old 6 4 tied_samples = Inr ([27 / 10, 27 / 10, 0, 0], tied_Urev)"
    by (rule tied_rich_eig) (simp add: arma_old_def)
  have e': "rich_eig arma_old (dim2 (array_of 2 2 6)) (dim0 (array_of 2 2 6) * dim1 (array_of 2 2 6))
              (samples_of (heap (world_of tied_data)) (array_of 2 2 6))
            = Inr ([27 / 10, 27 / 10, 0, 0], tied_Urev)"
    unfolding tied_samples_of using e by simp
  note T = normalised_columns_unit [OF tied_wf tied_rich e', unfolded tied_samples_of]
  have k: "dim0 (array_of 2 2 6) * dim1 (array_of 2 2 6) = 4" and n: "dim2 (array_of 2 2 6) = 6"
    by simp_all
  note T' = T [unfolded k n]
  have pos: "0 < vv_of 4 (V_of 6 4 tied_samples tied_Urev) ! 0"
    unfolding tied_V_of tied_vv by simp
  from T' pos have A: "\<exists>u. normalised_cols 4 (V_of 6 4 tied_samples tied_Urev) ! 0 = Some u \<and> sqrt (dot u u) = 1"
    by (metis zero_less_numeral)
  from T' tied_result_old
  have B: "\<exists>u. rich_column arma_old 6 4 tied_samples = Inr u \<and> sqrt (dot u u) = 1 \<and> length u = 6
          \<and> (\<forall>i<6. [3 * sqrt 5 / 5, 3 * sqrt 5 / 5, 3 * sqrt 5 / 5, sqrt 5 / 5, sqrt 5 / 5, sqrt 5 / 5] ! i =
                sqrt (sum_list (aa_of tied_samples) / aa_of tied_samples ! i) * \<bar>u ! i\<bar>)"
    by blast
  from tied_wf tied_rich e pos A tied_result_old B show ?thesis by blast
qed

section \<open>The selected column in the feature-rich branch\<close>

lemma feature_column_Inr:
  assumes "feature_column lib nn kk omat = Inr c"
  shows "\<exists>zz eigval eigvec. cor_t lib kk omat = Inr zz \<and> eig_sym lib zz = Some (eigval, eigvec)
           \<and> well_shaped nn nn eigvec \<and> empty_vec_n_cols lib < nn
           \<and> c = col eigvec (empty_vec_n_cols lib)"
  using assms
  by (auto simp: feature_column_def Let_def split: sum.splits option.splits if_splits)

text \<open>
  Claim C2, as the code has it: in the branch for at most as many samples as features the
  selected eigenvector is the column whose index is the column count that the library
  reports for the still empty eigenvalue vector, and the returned weights are
  \<open>h(i) = |sqrt(aasum/aa(i)) * eigvec(i, maxval)|\<close>. The index is 0 for a library that
  reports no column there.
\<close>

theorem feature_weights_use_reported_column:
  assumes "wf_call a w" and "dim2 a \<le> dim0 a * dim1 a"
    and "fst (scaleproc lib a w) = Inr h"
  shows "\<exists>zz eigval eigvec.
           cor_t lib (dim0 a * dim1 a) (samples_of (heap w) a) = Inr zz
         \<and> eig_sym lib zz = Some (eigval, eigvec)
         \<and> empty_vec_n_cols lib < dim2 a
         \<and> length h = dim2 a
         \<and> (\<forall>i<dim2 a. h ! i =
               \<bar>sqrt (sum_list (aa_of (samples_of (heap w) a)) / aa_of (samples_of (heap w) a) ! i)
                 * eigvec ! i ! empty_vec_n_cols lib\<bar>)"
proof -
  let ?om = "samples_of (heap w) a" and ?n = "dim2 a" and ?k = "dim0 a * dim1 a"
  from assms(1,3) have "fst (estimate lib ?n ?k (aa_of ?om) ?om) = Inr h"
    by (simp add: scaleproc_result)
  from estimate_Inr [OF this] assms(2) obtain c where
    c: "feature_column lib ?n ?k ?om = Inr c" and w: "weights (aa_of ?om) c = Inr h" by auto
  from feature_column_Inr [OF c] obtain zz eigval eigvec where
    z: "cor_t lib ?k ?om = Inr zz" and e: "eig_sym lib zz = Some (eigval, eigvec)"
    and ws: "well_shaped ?n ?n eigvec" and m: "empty_vec_n_cols lib < ?n"
    and cc: "c = col eigvec (empty_vec_n_cols lib)" by blast
  have len: "length h = ?n" using weights_Inr(2) [OF w] by simp
  have "h ! i = \<bar>sqrt (sum_list (aa_of ?om) / aa_of ?om ! i) * eigvec ! i ! empty_vec_n_cols lib\<bar>"
    if "i < ?n" for i
  proof -
    from that have i: "i < length (aa_of ?om)" by simp
    have "c ! i = eigvec ! i ! empty_vec_n_cols lib"
      using that ws by (simp add: cc col_def well_shaped_def)
    with weights_Inr(3) [OF w i] show ?thesis by simp
  qed
  with z e m len show ?thesis by blast
qed

lemma two_by_four_column_new:
  "feature_column arma_new 2 4 [[1, - 1, 1, - 1], [2, 2, - 2, - 2]] = Inr [0, 1]"
  by (simp add: feature_column_def two_by_four_cor arma_new_def lapack_identity_2
        well_shaped_def col_def)

lemma two_by_four_result_new:
  "fst (scaleproc arma_new (array_of 2 2 2) (world_of [1, - 1, 1, - 1, 2, 2, - 2, - 2]))
   = Inr [0, sqrt (5 / 4)]"
  by (simp add: scaleproc_result [OF two_by_four_wf] two_by_four_samples two_by_four_aa
        estimate_def path_taken_def feature_rich_def two_by_four_column_new
        weights_4_16_second)

lemma two_by_four_feature: "dim2 (array_of 2 2 2) \<le> dim0 (array_of 2 2 2) * dim1 (array_of 2 2 2)"
  by simp

text \<open>
  Claim C2 as stated fails for a library whose empty column vector reports one column:
  two uncorrelated slices of four features, where the eigenvectors of the correlation
  matrix are the unit vectors. The weights come from column 1, not from column 0.
\<close>

theorem reported_column_counterexample:
  "wf_call (array_of 2 2 2) (world_of [1, - 1, 1, - 1, 2, 2, - 2, - 2])
   \<and> dim2 (array_of 2 2 2) \<le> dim0 (array_of 2 2 2) * dim1 (array_of 2 2 2)
   \<and> cor_t arma_new 4 [[1, - 1, 1, - 1], [2, 2, - 2, - 2]] = Inr [[1, 0], [0, 1]]
   \<and> eig_sym arma_new [[1, 0], [0, 1]] = Some ([1, 1], [[1, 0], [0, 1]])
   \<and> weights [4, 16] (col [[1, 0], [0, 1]] 0) = Inr [sqrt 5, 0]
   \<and> fst (scaleproc arma_new (array_of 2 2 2) (world_of [1, - 1, 1, - 1, 2, 2, - 2, - 2]))
       = Inr [0, sqrt (5 / 4)]
   \<and> [0, sqrt (5 / 4)] \<noteq> [sqrt 5, 0]"
proof -
  have e: "eig_sym arma_new [[1, 0], [0, 1]] = Some ([1, 1], [[1, 0], [0, 1]])"
    by (simp add: arma_new_def lapack_identity_2)
  have w: "weights [4, 16] (col [[1, 0], [0, 1]] 0) = Inr [sqrt 5, 0]"
    by (simp add: col_def weights_4_16_first)
  have d: "[0, sqrt (5 / 4)] \<noteq> [sqrt 5, 0]" by simp
  from two_by_four_wf two_by_four_feature two_by_four_cor [of arma_new] e w
    two_by_four_result_new d show ?thesis by blast
qed

theorem feature_weights_use_reported_column_witness:
  "wf_call (array_of 2 2 2) (world_of [1, - 1, 1, - 1, 2, 2, - 2, - 2])
   \<and> dim2 (array_of 2 2 2) \<le> dim0 (array_of 2 2 2) * dim1 (array_of 2 2 2)
   \<and> fst (scaleproc arma_old (array_of 2 2 2) (world_of [1, - 1, 1, - 1, 2, 2, - 2, - 2]))
       = Inr [sqrt 5, 0]
   \<and> (\<exists>zz eigval eigvec.
           cor_t arma_old 4 [[1, - 1, 1, - 1], [2, 2, - 2, - 2]] = Inr zz
         \<and> eig_sym arma_old zz = Some (eigval, eigvec)
         \<and> empty_vec_n_cols arma_old < 2
         \<and> (\<forall>i<2. [sqrt 5, 0] ! i =
               \<bar>sqrt (sum_list [4, 16] / [4, 16] ! i) * eigvec ! i ! empty_vec_n_cols arma_old\<bar>))"
proof -
  have om: "samples_of (heap (world_of [1, - 1, 1, - 1, 2, 2, - 2, - 2])) (array_of 2 2 2)
            = [[1, - 1, 1, - 1], [2, 2, - 2, - 2]]"
    using two_by_four_samples by simp
  note T = feature_weights_use_reported_column [OF two_by_four_wf two_by_four_feature
      two_by_four_result, unfolded om two_by_four_aa]
  have k: "dim0 (array_of 2 2 2) * dim1 (array_of 2 2 2) = 4" and n: "dim2 (array_of 2 2 2) = 2"
    by simp_all
  note T' = T [unfolded k n]
  from T' have "\<exists>zz eigval eigvec.
           cor_t arma_old 4 [[1, - 1, 1, - 1], [2, 2, - 2, - 2]] = Inr zz
         \<and> eig_sym arma_old zz = Some (eigval, eigvec)
         \<and> empty_vec_n_cols arma_old < 2
         \<and> (\<forall>i<2. [sqrt 5, 0] ! i =
               \<bar>sqrt (sum_list [4, 16] / [4, 16] ! i) * eigvec ! i ! empty_vec_n_cols arma_old\<bar>)"
    by blast
  with two_by_four_wf two_by_four_feature two_by_four_result show ?thesis by blast
qed

section \<open>Multiplying the input by a positive scalar\<close>

lemma sum_list_scale: "sum_list (map ((*) s) xs) = s * sum_list (xs :: real list)"
  by (induction xs) (simp_all add: algebra_simps)

lemma mean_scale: "mean (map ((*) s) r) = s * mean r"
  by (simp add: mean_def sum_list_scale)

lemma centre_scale: "centre (map ((*) s) r) = map ((*) s) (centre r)"
  by (simp add: centre_def mean_scale algebra_simps)

lemma sum_squares_scale:
  "(\<Sum>x\<leftarrow>r. (s * x - s * m)\<^sup>2) = s\<^sup>2 * (\<Sum>x\<leftarrow>r. (x - m)\<^sup>2 :: real)"
  by (induction r) (simp_all add: algebra_simps power2_eq_square)

lemma var_scale: "var (map ((*) s) r) = s\<^sup>2 * var r"
  by (simp add: var_def mean_scale sum_squares_scale o_def)

lemma qq_scale: "qq_of n (map ((*) s) r) = s\<^sup>2 * qq_of n r"
  by (simp add: qq_of_def var_scale)

lemma sqrt_inverse_scale:
  fixes s q :: real
  assumes "0 < s"
  shows "sqrt (1 / (s\<^sup>2 * q)) * (s * x) = sqrt (1 / q) * x"
proof -
  have "sqrt (1 / (s\<^sup>2 * q)) = sqrt (1 / q) / s"
    using assms by (simp add: real_sqrt_divide real_sqrt_mult)
  then show ?thesis using assms by simp
qed

lemma scaled_omat_scale:
  assumes "0 < s"
  shows "scaled_omat n (map (map ((*) s)) om) = scaled_omat n om"
  by (simp add: scaled_omat_def qq_scale centre_scale sqrt_inverse_scale [OF assms] o_def)

lemma rich_eig_Inr:
  assumes "rich_eig lib n k om = Inr y"
  shows "(case eig_sym lib (Lmat_of k (scaled_omat n om)) of
            None \<Rightarrow> Inl Thrown
          | Some (lambda, U) \<Rightarrow>
              if length lambda \<noteq> k \<or> \<not> well_shaped k k U then Inl Thrown
              else Inr (map (\<lambda>i. lambda ! i) (usort_of (length lambda)),
                        map (\<lambda>r. map (\<lambda>i. r ! i) (usort_of (length lambda))) U)) = Inr y"
  using assms by (simp add: rich_eig_def split: if_splits)

lemma rich_eig_scale:
  assumes "0 < s" and "rich_eig lib n k (map (map ((*) s)) om) = Inr y'"
    and "rich_eig lib n k om = Inr y"
  shows "y' = y"
  using rich_eig_Inr [OF assms(2)] rich_eig_Inr [OF assms(3)]
  by (simp add: scaled_omat_scale [OF assms(1)])

lemma rich_column_scale:
  assumes "0 < s" and "rich_column lib n k (map (map ((*) s)) om) = Inr c'"
    and "rich_column lib n k om = Inr c"
  shows "c' = c"
proof -
  have V: "V_of n k (map (map ((*) s)) om) U = V_of n k om U" for U
    by (simp add: V_of_def scaled_omat_scale [OF assms(1)])
  from rich_column_Inr [OF assms(2)] obtain lam' U' where
    e': "rich_eig lib n k (map (map ((*) s)) om) = Inr (lam', U')"
    and n': "normalised_cols k (V_of n k om U')
              ! (sort_index_descend lib (delta_of k lam' (vv_of k (V_of n k om U'))) ! 0) = Some c'"
    unfolding V by blast
  from rich_column_Inr [OF assms(3)] obtain lam U where
    e: "rich_eig lib n k om = Inr (lam, U)"
    and n: "normalised_cols k (V_of n k om U)
              ! (sort_index_descend lib (delta_of k lam (vv_of k (V_of n k om U))) ! 0) = Some c"
    by blast
  from rich_eig_scale [OF assms(1) e' e] have "lam' = lam" "U' = U" by simp_all
  with n' n show ?thesis by simp
qed

lemma dot_scale: "dot (map ((*) s) x) (map ((*) s) y) = s\<^sup>2 * dot x y"
proof (induction x arbitrary: y)
  case Nil then show ?case by simp
next
  case (Cons a x)
  then show ?case by (cases y) (simp_all add: algebra_simps power2_eq_square)
qed

lemma cov_scale: "cov (map ((*) s) x) (map ((*) s) y) = s\<^sup>2 * cov x y"
  by (simp add: cov_def centre_scale dot_scale)

lemma cor_entry_scale:
  fixes s :: real
  assumes "0 < s"
  shows "s\<^sup>2 * c / (sqrt (s\<^sup>2 * a) * sqrt (s\<^sup>2 * b)) = c / (sqrt a * sqrt b)"
proof -
  have "sqrt (s\<^sup>2 * a) = s * sqrt a" "sqrt (s\<^sup>2 * b) = s * sqrt b"
    using assms by (simp_all add: real_sqrt_mult)
  then show ?thesis using assms by (simp add: power2_eq_square)
qed

lemma cor_t_Inr:
  assumes "cor_t lib k om = Inr z"
  shows "z = (if k < 2 then map (\<lambda>x. map (\<lambda>y. the (cor_single lib)) om) om
              else map (\<lambda>x. map (\<lambda>y. cov x y / (sqrt (cov x x) * sqrt (cov y y))) om) om)"
  using assms by (auto simp: cor_t_def split: if_splits option.splits)

lemma cor_t_scale:
  assumes "0 < s" and "cor_t lib k (map (map ((*) s)) om) = Inr z'" and "cor_t lib k om = Inr z"
  shows "z' = z"
  unfolding cor_t_Inr [OF assms(2)] cor_t_Inr [OF assms(3)]
  by (simp add: cov_scale cor_entry_scale [OF assms(1)] o_def)

lemma feature_column_scale:
  assumes "0 < s" and "feature_column lib n k (map (map ((*) s)) om) = Inr c'"
    and "feature_column lib n k om = Inr c"
  shows "c' = c"
proof -
  from feature_column_Inr [OF assms(2)] obtain zz' ev' U' where
    z': "cor_t lib k (map (map ((*) s)) om) = Inr zz'" and e': "eig_sym lib zz' = Some (ev', U')"
    and c': "c' = col U' (empty_vec_n_cols lib)" by blast
  from feature_column_Inr [OF assms(3)] obtain zz ev U where
    z: "cor_t lib k om = Inr zz" and e: "eig_sym lib zz = Some (ev, U)"
    and c: "c = col U (empty_vec_n_cols lib)" by blast
  from cor_t_scale [OF assms(1) z' z] e' e have "U' = U" by simp
  with c' c show ?thesis by simp
qed

lemma weights_scale:
  assumes "0 < s" and "\<forall>y\<in>set aa. 0 \<le> y"
    and "weights (map ((*) (s\<^sup>2)) aa) c = Inr h'" and "weights aa c = Inr h"
  shows "h' = h"
proof (rule nth_equalityI)
  have nn': "\<forall>y\<in>set (map ((*) (s\<^sup>2)) aa). 0 \<le> y" using assms(2) by auto
  show "length h' = length h"
    using weights_Inr_gen(2) [OF assms(3) nn'] weights_Inr_gen(2) [OF assms(4,2)] by simp
  fix i assume "i < length h'"
  then have i: "i < length aa" using weights_Inr_gen(2) [OF assms(3) nn'] by simp
  then have i': "i < length (map ((*) (s\<^sup>2)) aa)" by simp
  have r: "s\<^sup>2 * t / (s\<^sup>2 * x) = t / x" for t x :: real using assms(1) by simp
  from weights_Inr_gen(3) [OF assms(3) nn' i'] weights_Inr_gen(3) [OF assms(4,2) i] i
  show "h' ! i = h ! i" by (simp add: sum_list_scale r)
qed

lemma aa_of_scale: "aa_of (map (map ((*) s)) om) = map ((*) (s\<^sup>2)) (aa_of om)"
proof -
  have "(\<Sum>x\<leftarrow>r. s * x * (s * x)) = s\<^sup>2 * (\<Sum>x\<leftarrow>r. x * x)" for r :: "real list"
    by (induction r) (simp_all add: algebra_simps power2_eq_square)
  then show ?thesis by (simp add: aa_of_def accu_def o_def)
qed

lemma estimate_scale:
  assumes "0 < s"
    and "fst (estimate lib n k (aa_of (map (map ((*) s)) om)) (map (map ((*) s)) om)) = Inr h'"
    and "fst (estimate lib n k (aa_of om) om) = Inr h"
  shows "h' = h"
proof -
  let ?om' = "map (map ((*) s)) om"
  have nn: "\<forall>y\<in>set (aa_of om). 0 \<le> y" using aa_of_nonneg by blast
  from estimate_Inr [OF assms(2)] obtain c' where
    c': "(if k < n then rich_column lib n k ?om' else feature_column lib n k ?om') = Inr c'"
    and w': "weights (aa_of ?om') c' = Inr h'" by blast
  from estimate_Inr [OF assms(3)] obtain c where
    c: "(if k < n then rich_column lib n k om else feature_column lib n k om) = Inr c"
    and w: "weights (aa_of om) c = Inr h" by blast
  have "c' = c"
    using c' c rich_column_scale [OF assms(1)] feature_column_scale [OF assms(1)]
    by (cases "k < n") auto
  with w' have "weights (map ((*) (s\<^sup>2)) (aa_of om)) c = Inr h'" by (simp add: aa_of_scale)
  from weights_scale [OF assms(1) nn this w] show ?thesis .
qed

lemma samples_of_scaled:
  assumes "\<forall>t<dim0 a * dim1 a * dim2 a. h' (begin_addr a + t) = s * h (begin_addr a + t)"
  shows "samples_of h' a = map (map ((*) s)) (samples_of h a)"
proof -
  have "slice h' a i = map ((*) s) (slice h a i)" if i: "i < dim2 a" for i
  proof -
    have "dim0 a * dim1 a * i + dim0 a * dim1 a = dim0 a * dim1 a * Suc i" by simp
    also have "\<dots> \<le> dim0 a * dim1 a * dim2 a" using i by (intro mult_le_mono2) simp
    finally have "dim0 a * dim1 a * i + t < dim0 a * dim1 a * dim2 a" if "t < dim0 a * dim1 a" for t
      using that by linarith
    with assms have "h' (begin_addr a + (dim0 a * dim1 a * i + t)) = s * h (begin_addr a + (dim0 a * dim1 a * i + t))"
      if "t < dim0 a * dim1 a" for t using that by blast
    then show ?thesis by (simp add: slice_def add.assoc)
  qed
  then show ?thesis by (simp add: samples_of_def)
qed


lemma heap_of_scale: "heap_of (map ((*) s) xs) t = s * heap_of xs t"
  by (simp add: heap_of_def)

lemma doubled_wf: "wf_call (array_of 2 2 2) (world_of [2, - 2, 2, - 2, 4, 4, - 4, - 4])"
  by (simp add: wf_call_def)

lemma doubled_heap:
  "\<forall>t<dim0 (array_of 2 2 2) * dim1 (array_of 2 2 2) * dim2 (array_of 2 2 2).
     heap (world_of [2, - 2, 2, - 2, 4, 4, - 4, - 4]) (begin_addr (array_of 2 2 2) + t)
     = 2 * heap (world_of [1, - 1, 1, - 1, 2, 2, - 2, - 2]) (begin_addr (array_of 2 2 2) + t)"
proof -
  have "[2, - 2, 2, - 2, 4, 4, - 4, - 4] = map ((*) 2) [1, - 1, 1, - 1, 2, 2, - 2, - 2 :: real]"
    by simp
  then show ?thesis by (simp only: world_of_sel heap_of_scale) simp
qed

lemma doubled_result:
  "fst (scaleproc arma_old (array_of 2 2 2) (world_of [2, - 2, 2, - 2, 4, 4, - 4, - 4]))
   = Inr [sqrt 5, 0]"
proof -
  have s: "samples_of (heap_of [2, - 2, 2, - 2, 4, 4, - 4, - 4]) (array_of 2 2 2)
           = [[2, - 2, 2, - 2], [4, 4, - 4, - 4]]"
    by (simp add: samples_of_list upt_2)
  have aa: "aa_of [[2, - 2, 2, - 2], [4, 4, - 4, - 4]] = [16, 64]"
    by (simp add: aa_of_def accu_def)
  have z: "cor_t lib 4 [[2, - 2, 2, - 2], [4, 4, - 4, - 4]] = Inr [[1, 0], [0, 1]]" for lib
    by (simp add: cor_t_def cov_def centre_def mean_def dot_def not_overflows not_underflows)
  have c: "feature_column arma_old 2 4 [[2, - 2, 2, - 2], [4, 4, - 4, - 4]] = Inr [1, 0]"
    by (simp add: feature_column_def z arma_old_def lapack_identity_2 well_shaped_def col_def)
  have w: "weights [16, 64] [1, 0] = Inr [sqrt 5, 0]"
    by (subst weights_value)
      (simp_all add: not_overflows not_underflows not_overflows_sqrt_plain)
  show ?thesis
    by (simp add: scaleproc_result [OF doubled_wf] s aa estimate_def path_taken_def
          feature_rich_def c w)
qed


section \<open>A scalar that takes the sums of squares out of the range of doubles\<close>

lemma huge_pos: "0 < huge"
  by (simp add: huge_def)

lemma huge_square_overflows: "overflows (huge\<^sup>2 * x)" if "1 \<le> x" for x :: real
proof (rule overflows_big)
  have "(2::real) ^ 1024 \<le> 2 ^ 1200" by (rule power_increasing) simp_all
  also have "\<dots> = huge\<^sup>2 * 1" by (simp add: huge_def power_mult [symmetric] del: power_mult_numeral)
  also have "\<dots> \<le> huge\<^sup>2 * x" using that by (intro mult_left_mono) simp_all
  finally show "2 ^ 1024 \<le> huge\<^sup>2 * x" .
qed

lemma big_wf: "wf_call (array_of 2 2 2) (world_of big_data)"
  by (simp add: wf_call_def big_data_def)

lemma big_heap:
  "\<forall>t<dim0 (array_of 2 2 2) * dim1 (array_of 2 2 2) * dim2 (array_of 2 2 2).
     heap (world_of big_data) (begin_addr (array_of 2 2 2) + t)
     = huge * heap (world_of [1, - 1, 1, - 1, 2, 2, - 2, - 2]) (begin_addr (array_of 2 2 2) + t)"
  by (simp only: world_of_sel big_data_def heap_of_scale) simp

lemma big_samples:
  "samples_of (heap (world_of big_data)) (array_of 2 2 2)
   = map (map ((*) huge)) [[1, - 1, 1, - 1], [2, 2, - 2, - 2]]"
proof -
  have "samples_of (heap (world_of big_data)) (array_of 2 2 2)
        = map (map ((*) huge))
            (samples_of (heap (world_of [1, - 1, 1, - 1, 2, 2, - 2, - 2])) (array_of 2 2 2))"
    using big_heap by (rule samples_of_scaled)
  then show ?thesis using two_by_four_samples by simp
qed

lemma big_aa:
  "aa_of (map (map ((*) huge)) [[1, - 1, 1, - 1], [2, 2, - 2, - 2]])
   = [huge\<^sup>2 * 4, huge\<^sup>2 * 16]"
  unfolding aa_of_scale two_by_four_aa by simp

lemma big_cor:
  "cor_t lib 4 (map (map ((*) huge)) [[1, - 1, 1, - 1], [2, 2, - 2, - 2]]) = Inl NonFinite"
proof -
  let ?om = "map (map ((*) huge)) [[1, - 1, 1, - 1], [2, 2, - 2, - 2 :: real]]"
  have c1: "cov [1, - 1, 1, - 1] [1, - 1, 1, - 1] = 4 / 3"
    and c2: "cov [2, 2, - 2, - 2] [2, 2, - 2, - 2] = 16 / 3"
    by (simp_all add: cov_def centre_def mean_def)
  have v1: "cov (map ((*) huge) [1, - 1, 1, - 1]) (map ((*) huge) [1, - 1, 1, - 1]) = huge\<^sup>2 * (4 / 3)"
    and v2: "cov (map ((*) huge) [2, 2, - 2, - 2]) (map ((*) huge) [2, 2, - 2, - 2]) = huge\<^sup>2 * (16 / 3)"
    by (simp_all only: cov_scale c1 c2)
  have s: "set ?om = {map ((*) huge) [1, - 1, 1, - 1], map ((*) huge) [2, 2, - 2, - 2]}"
    by (simp only: list.map list.set)
  have e1: "\<not> (\<exists>r\<in>set ?om. sqrt (cov r r) = 0)"
    unfolding s using huge_pos by (simp only: bex_simps v1 v2) simp
  have e2: "\<exists>r\<in>set ?om. overflows (cov r r)"
    unfolding s using huge_square_overflows [of "4 / 3"] by (simp only: bex_simps v1) simp
  show ?thesis
    unfolding cor_t_def using e1 e2 by (simp only: if_True if_False) simp
qed

lemma big_result:
  "fst (scaleproc arma_old (array_of 2 2 2) (world_of big_data)) = Inl NonFinite"
proof -
  let ?om = "map (map ((*) huge)) [[1, - 1, 1, - 1], [2, 2, - 2, - 2 :: real]]"
  have c: "feature_column arma_old 2 4 ?om = Inl NonFinite"
    unfolding feature_column_def big_cor by simp
  have f: "feature_rich arma_old 2 4 (aa_of ?om) ?om = Inl NonFinite"
    unfolding feature_rich_def c by simp
  have "estimate arma_old 2 4 (aa_of ?om) ?om = (Inl NonFinite, [])"
    unfolding estimate_def path_taken_def f by simp
  then show ?thesis
    unfolding scaleproc_result [OF big_wf] big_samples
    by (simp only: array_of_sel) simp
qed

lemma huge_in_range: "\<not> overflows (2 * huge)"
proof (rule not_overflows)
  have "2 * huge = (2::real) ^ 601" by (simp add: huge_def)
  also have "\<dots> \<le> 2 ^ 1000" by (rule power_increasing) simp_all
  finally show "2 * huge \<le> 2 ^ 1000" .
qed

lemma big_aa_of:
  "aa_of (samples_of (heap (world_of big_data)) (array_of 2 2 2)) = [huge\<^sup>2 * 4, huge\<^sup>2 * 16]"
  unfolding big_samples big_aa ..



section \<open>Reordering the samples\<close>

lemma length_reorder [simp]: "length (reorder q n xs) = n"
  by (simp add: reorder_def)

lemma reorder_nth [simp]: "j < n \<Longrightarrow> reorder q n xs ! j = xs ! q j"
  by (simp add: reorder_def)

lemma reorder_map:
  assumes "bij_betw q {..<n} {..<n}" and "length xs = n"
  shows "reorder q n (map f xs) = map f (reorder q n xs)"
proof -
  have "q j < n" if "j < n" for j using assms(1) that by (auto simp: bij_betw_def)
  then show ?thesis using assms(2) by (simp add: reorder_def)
qed

lemma set_reorder:
  assumes "bij_betw q {..<n} {..<n}" and "length xs = n"
  shows "set (reorder q n xs) = set xs"
proof -
  have "set (reorder q n xs) = (\<lambda>j. xs ! q j) ` {..<n}"
    by (auto simp: reorder_def)
  also have "\<dots> = (!) xs ` (q ` {..<n})" by (simp add: image_image)
  also have "q ` {..<n} = {..<n}" using assms(1) by (simp add: bij_betw_def)
  also have "(!) xs ` {..<n} = set xs" using assms(2) by (auto simp: set_conv_nth)
  finally show ?thesis .
qed

lemma dot_sum_nth:
  "length xs = length ys \<Longrightarrow> dot xs ys = (\<Sum>i<length xs. xs ! i * ys ! i)"
proof -
  assume l: "length xs = length ys"
  have "map (\<lambda>(x, y). x * y) (zip xs ys) = map (\<lambda>i. xs ! i * ys ! i) [0..<length xs]"
    using l by (intro nth_equalityI) simp_all
  then have "dot xs ys = sum_list (map (\<lambda>i. xs ! i * ys ! i) [0..<length xs])"
    by (simp only: dot_def)
  also have "\<dots> = (\<Sum>i<length xs. xs ! i * ys ! i)"
    by (simp add: interv_sum_list_conv_sum_set_nat atLeast0LessThan)
  finally show ?thesis .
qed

lemma dot_reorder:
  assumes "bij_betw q {..<n} {..<n}" and "length xs = n" and "length ys = n"
  shows "dot (reorder q n xs) (reorder q n ys) = dot xs ys"
proof -
  have "dot (reorder q n xs) (reorder q n ys) = (\<Sum>j<n. xs ! q j * ys ! q j)"
    by (simp add: dot_sum_nth)
  also have "\<dots> = (\<Sum>i<n. xs ! i * ys ! i)"
    by (rule sum.reindex_bij_betw [OF assms(1)])
  also have "\<dots> = dot xs ys" using assms(2,3) by (simp add: dot_sum_nth)
  finally show ?thesis .
qed

lemma sum_list_reorder:
  fixes xs :: "real list"
  assumes "bij_betw q {..<n} {..<n}" and "length xs = n"
  shows "sum_list (reorder q n xs) = sum_list xs"
proof -
  have "sum_list (reorder q n xs) = (\<Sum>j<n. xs ! q j)"
    by (simp add: reorder_def interv_sum_list_conv_sum_set_nat atLeast0LessThan)
  also have "\<dots> = (\<Sum>i<n. xs ! i)" by (rule sum.reindex_bij_betw [OF assms(1)])
  also have "\<dots> = sum_list xs"
    using assms(2) by (simp add: sum_list_sum_nth atLeast0LessThan)
  finally show ?thesis .
qed

lemma col_reorder:
  assumes "bij_betw q {..<n} {..<n}" and "length X = n"
  shows "col (reorder q n X) a = reorder q n (col X a)"
  unfolding col_def by (rule reorder_map [OF assms, symmetric])

lemma length_col [simp]: "length (col X a) = length X"
  by (simp add: col_def)

lemma scaled_omat_reorder:
  assumes "bij_betw q {..<n} {..<n}" and "length om = n"
  shows "scaled_omat nn (reorder q n om) = reorder q n (scaled_omat nn om)"
  unfolding scaled_omat_def by (rule reorder_map [OF assms, symmetric])

lemma length_scaled_omat [simp]: "length (scaled_omat nn om) = length om"
  by (simp add: scaled_omat_def)

lemma Lmat_of_reorder:
  assumes "bij_betw q {..<n} {..<n}" and "length X = n"
  shows "Lmat_of k (reorder q n X) = Lmat_of k X"
proof -
  let ?g = "map (\<lambda>x. x / real k)"
  have B: "map ?g (reorder q n X) = reorder q n (map ?g X)"
    by (rule reorder_map [OF assms, symmetric])
  have "dot (col (reorder q n X) a) (col (reorder q n (map ?g X)) b)
        = dot (col X a) (col (map ?g X) b)" for a b
    using assms by (simp add: col_reorder dot_reorder)
  then show ?thesis by (simp add: Lmat_of_def mat_mul_def mat_t_def B)
qed

lemma rich_eig_reorder:
  assumes "bij_betw q {..<n} {..<n}" and "length om = n"
  shows "rich_eig lib nn k (reorder q n om) = rich_eig lib nn k om"
  using assms
  by (simp add: rich_eig_def set_reorder scaled_omat_reorder Lmat_of_reorder)

lemma V_of_reorder:
  assumes "bij_betw q {..<n} {..<n}" and "length om = n"
  shows "V_of nn k (reorder q n om) U = reorder q n (V_of nn k om U)"
  unfolding V_of_def mat_mul_def scaled_omat_reorder [OF assms]
  using assms by (intro reorder_map [symmetric]) simp_all

lemma vv_of_reorder:
  assumes "bij_betw q {..<n} {..<n}" and "length V = n"
  shows "vv_of k (reorder q n V) = vv_of k V"
  using assms by (simp add: vv_of_def col_reorder dot_reorder)

lemma normalised_cols_reorder:
  assumes "bij_betw q {..<n} {..<n}" and "length V = n"
  shows "normalised_cols k (reorder q n V) = map (map_option (reorder q n)) (normalised_cols k V)"
proof -
  have "map (\<lambda>x. x / v) (reorder q n (col V i)) = reorder q n (map (\<lambda>x. x / v) (col V i))" for v i
    using assms by (intro reorder_map [symmetric]) simp_all
  then show ?thesis
    using assms by (simp add: normalised_cols_def vv_of_reorder col_reorder)
qed

lemma length_normalised_cols [simp]: "length (normalised_cols k V) = k"
  by (simp add: normalised_cols_def)

lemma rich_column_reorder:
  assumes "bij_betw q {..<n} {..<n}" and "length om = n"
  shows "rich_column lib nn k (reorder q n om) = map_sum id (reorder q n) (rich_column lib nn k om)"
proof (cases "rich_eig lib nn k om")
  case (Inl e)
  then show ?thesis by (simp add: rich_column_def rich_eig_reorder [OF assms])
next
  case (Inr p)
  obtain lam U where p: "p = (lam, U)" by (cases p)
  let ?V = "V_of nn k om U"
  have lV: "length ?V = n" using assms(2) by (simp add: length_V_of)
  have V': "V_of nn k (reorder q n om) U = reorder q n ?V" by (rule V_of_reorder [OF assms])
  have d: "dot (col (reorder q n ?V) i) (col (reorder q n ?V) i) = dot (col ?V i) (col ?V i)" for i
    using assms(1) lV by (simp add: col_reorder dot_reorder)
  show ?thesis
    using Inr p
    by (simp add: rich_column_def rich_eig_reorder [OF assms] V' vv_of_reorder [OF assms(1) lV]
          normalised_cols_reorder [OF assms(1) lV] d Let_def split: option.splits)
qed

lemma rich_column_length:
  assumes "rich_column lib nn k om = Inr c"
  shows "length c = length om"
proof -
  from rich_column_Inr [OF assms] obtain lam U where
    lt: "sort_index_descend lib (delta_of k lam (vv_of k (V_of nn k om U))) ! 0 < k"
    and n: "normalised_cols k (V_of nn k om U)
              ! (sort_index_descend lib (delta_of k lam (vv_of k (V_of nn k om U))) ! 0) = Some c"
    by blast
  from normalised_unit(4) [OF lt n] show ?thesis by (simp add: length_V_of)
qed

lemma weights_reorder:
  assumes "bij_betw q {..<n} {..<n}" and "length aa = n" and "length c = n"
  shows "weights (reorder q n aa) (reorder q n c) = map_sum id (reorder q n) (weights aa c)"
proof -
  let ?g = "\<lambda>(x, v). ieee_abs_times (scale_factor aa x) v"
  let ?H = "map ?g (zip aa c)"
  have s: "sum_list (reorder q n aa) = sum_list aa" by (rule sum_list_reorder [OF assms(1,2)])
  have g: "(\<lambda>(x, v). ieee_abs_times (scale_factor (reorder q n aa) x) v) = ?g"
    by (simp add: scale_factor_def s)
  have qlt: "q j < n" if "j < n" for j using assms(1) that by (auto simp: bij_betw_def)
  have z: "zip (reorder q n aa) (reorder q n c) = reorder q n (zip aa c)"
    using assms(2,3) qlt by (intro nth_equalityI) simp_all
  have lz: "length (zip aa c) = n" using assms by simp
  have lH: "length ?H = n" using assms by simp
  have m: "map ?g (reorder q n (zip aa c)) = reorder q n ?H"
    by (rule reorder_map [OF assms(1) lz, symmetric])
  have f: "map fin_value (reorder q n ?H) = reorder q n (map fin_value ?H)"
    by (rule reorder_map [OF assms(1) lH, symmetric])
  have sH: "set (reorder q n ?H) = set ?H" by (rule set_reorder [OF assms(1) lH])
  have sa: "set (reorder q n aa) = set aa" by (rule set_reorder [OF assms(1,2)])
  show ?thesis
    unfolding weights_def Let_def g z m f sH sa using assms(2,3) by simp
qed

lemma aa_of_reorder:
  assumes "bij_betw q {..<n} {..<n}" and "length om = n"
  shows "aa_of (reorder q n om) = reorder q n (aa_of om)"
  unfolding aa_of_def by (rule reorder_map [OF assms, symmetric])

lemma samples_rich_reorder:
  assumes "bij_betw q {..<n} {..<n}" and "length om = n"
  shows "samples_rich lib nn k (aa_of (reorder q n om)) (reorder q n om)
         = map_sum id (reorder q n) (samples_rich lib nn k (aa_of om) om)"
proof (cases "rich_column lib nn k om")
  case (Inl e)
  then show ?thesis by (simp add: samples_rich_def rich_column_reorder [OF assms])
next
  case (Inr c)
  have lc: "length c = n" using rich_column_length [OF Inr] assms(2) by simp
  have la: "length (aa_of om) = n" using assms(2) by simp
  show ?thesis
    using Inr
    by (simp add: samples_rich_def rich_column_reorder [OF assms] aa_of_reorder [OF assms]
          weights_reorder [OF assms(1) la lc])
qed

lemma samples_of_reordered:
  assumes p: "bij_betw p {..<dim2 a} {..<dim2 a}"
    and h: "\<forall>i<dim2 a. \<forall>t<dim0 a * dim1 a.
              h' (begin_addr a + dim0 a * dim1 a * p i + t) = h (begin_addr a + dim0 a * dim1 a * i + t)"
  shows "samples_of h' a = reorder (the_inv_into {..<dim2 a} p) (dim2 a) (samples_of h a)"
proof -
  let ?n = "dim2 a" and ?q = "the_inv_into {..<dim2 a} p"
  have q: "bij_betw ?q {..<?n} {..<?n}" using p by (rule bij_betw_the_inv_into)
  have qlt: "?q j < ?n" if "j < ?n" for j using q that by (auto simp: bij_betw_def)
  have "slice h' a j = slice h a (?q j)" if j: "j < ?n" for j
  proof -
    have qj: "?q j < ?n" using j by (rule qlt)
    have pq: "p (?q j) = j" using f_the_inv_into_f_bij_betw [OF p] j by simp
    from h qj have "\<forall>t<dim0 a * dim1 a.
        h' (begin_addr a + dim0 a * dim1 a * p (?q j) + t) = h (begin_addr a + dim0 a * dim1 a * ?q j + t)"
      by blast
    then show ?thesis unfolding pq by (simp add: slice_def)
  qed
  then show ?thesis using qlt by (simp add: samples_of_def reorder_def)
qed

lemma cor_t_Inr_shape:
  assumes "cor_t lib k om = Inr zz"
  shows "\<exists>f. zz = map (\<lambda>x. map (f x) om) om"
  using assms by (auto simp: cor_t_def split: if_splits option.splits)

lemma cor_t_reorder:
  assumes q: "bij_betw q {..<n} {..<n}" and len: "length om = n"
    and z: "cor_t lib k om = Inr zz"
  shows "cor_t lib k (reorder q n om) = Inr (reorder q n (map (reorder q n) zz))"
proof -
  have r: "reorder q n (map (reorder q n) (map (\<lambda>x. map (f x) om) om))
           = map (\<lambda>x. map (f x) (reorder q n om)) (reorder q n om)" for f :: "vec \<Rightarrow> vec \<Rightarrow> real"
  proof -
    have "map (reorder q n) (map (\<lambda>x. map (f x) om) om)
          = map (\<lambda>x. map (f x) (reorder q n om)) om"
      by (simp add: reorder_map [OF q len])
    then show ?thesis by (simp add: reorder_map [OF q len])
  qed
  have s: "set (reorder q n om) = set om" by (rule set_reorder [OF q len])
  show ?thesis
  proof (cases "k < 2")
    case True
    with z obtain v where v: "cor_single lib = Some v" and zz: "zz = map (\<lambda>x. map (\<lambda>y. v) om) om"
      by (auto simp: cor_t_def split: option.splits)
    show ?thesis using True v unfolding zz r by (simp add: cor_t_def)
  next
    case False
    with z have g: "\<not> (\<exists>r\<in>set om. sqrt (cov r r) = 0)" "\<not> (\<exists>r\<in>set om. overflows (cov r r))"
      "\<not> (\<exists>r\<in>set om. underflows (cov r r))"
      and zz: "zz = map (\<lambda>x. map (\<lambda>y. cov x y / (sqrt (cov x x) * sqrt (cov y y))) om) om"
      by (auto simp: cor_t_def split: if_splits)
    show ?thesis using False g unfolding zz r by (simp add: cor_t_def s)
  qed
qed

lemma cor_t_well_shaped:
  assumes "cor_t lib k om = Inr zz"
  shows "well_shaped (length om) (length om) zz"
  using cor_t_Inr_shape [OF assms] by (auto simp: well_shaped_def)

lemma reorder_inverse:
  assumes p: "bij_betw p {..<n} {..<n}" and len: "length xs = n"
  shows "reorder (the_inv_into {..<n} p) n (reorder p n xs) = xs"
proof -
  let ?q = "the_inv_into {..<n} p"
  have q: "bij_betw ?q {..<n} {..<n}" using p by (rule bij_betw_the_inv_into)
  have qlt: "?q j < n" if "j < n" for j using q that by (auto simp: bij_betw_def)
  have pq: "p (?q j) = j" if "j < n" for j using f_the_inv_into_f_bij_betw [OF p] that by simp
  show ?thesis using len qlt pq by (intro nth_equalityI) simp_all
qed

lemma reorder_inverse':
  assumes p: "bij_betw p {..<n} {..<n}" and len: "length xs = n"
  shows "reorder p n (reorder (the_inv_into {..<n} p) n xs) = xs"
proof -
  let ?q = "the_inv_into {..<n} p"
  have plt: "p j < n" if "j < n" for j using p that by (auto simp: bij_betw_def)
  have qp: "?q (p j) = j" if "j < n" for j
    using p that by (intro the_inv_into_f_f) (auto simp: bij_betw_def)
  show ?thesis using len plt qp by (intro nth_equalityI) simp_all
qed

text \<open>A unit eigenvector of the reordered matrix, put back in the old order, is a unit
  eigenvector of the matrix.\<close>

lemma unit_eigvec_unreorder:
  assumes p: "bij_betw p {..<n} {..<n}" and A: "well_shaped n n A"
    and e: "unit_eigvec (reorder (the_inv_into {..<n} p) n (map (reorder (the_inv_into {..<n} p) n) A)) lam u'"
  shows "unit_eigvec A lam (reorder p n u')"
proof -
  let ?q = "the_inv_into {..<n} p"
  let ?v = "reorder p n u'"
  have q: "bij_betw ?q {..<n} {..<n}" using p by (rule bij_betw_the_inv_into)
  have qlt: "?q j < n" if "j < n" for j using q that by (auto simp: bij_betw_def)
  have plt: "p j < n" if "j < n" for j using p that by (auto simp: bij_betw_def)
  have qp: "?q (p j) = j" if "j < n" for j
    using p that by (intro the_inv_into_f_f) (auto simp: bij_betw_def)
  from A have lA: "length A = n" and rows: "\<And>j. j < n \<Longrightarrow> length (A ! j) = n"
    by (auto simp: well_shaped_def)
  from e have lu: "length u' = n" and mv: "mat_vec (reorder ?q n (map (reorder ?q n) A)) u' = map ((*) lam) u'"
    and un: "dot u' u' = 1"
    by (simp_all add: unit_eigvec_def)
  have u': "u' = reorder ?q n ?v" using reorder_inverse [OF p lu] by simp
  have row: "dot (A ! ?q j) ?v = lam * u' ! j" if j: "j < n" for j
  proof -
    from mv have "mat_vec (reorder ?q n (map (reorder ?q n) A)) u' ! j = map ((*) lam) u' ! j"
      by simp
    then have "dot (reorder ?q n (A ! ?q j)) u' = lam * u' ! j"
      using j lu lA qlt [OF j] by (simp add: mat_vec_def)
    then have "dot (reorder ?q n (A ! ?q j)) (reorder ?q n ?v) = lam * u' ! j"
      using u' by simp
    then show ?thesis using dot_reorder [OF q rows [OF qlt [OF j]], of ?v] by simp
  qed
  have "mat_vec A ?v = map ((*) lam) ?v"
  proof (intro nth_equalityI)
    show "length (mat_vec A ?v) = length (map ((*) lam) ?v)" using lA by (simp add: mat_vec_def)
    fix k assume "k < length (mat_vec A ?v)"
    then have k: "k < n" using lA by (simp add: mat_vec_def)
    from row [OF plt [OF k]] have "dot (A ! k) ?v = lam * u' ! p k" by (simp add: qp [OF k])
    then show "mat_vec A ?v ! k = map ((*) lam) ?v ! k" using k lA by (simp add: mat_vec_def)
  qed
  moreover have "dot ?v ?v = 1" using dot_reorder [OF p lu lu] un by simp
  ultimately show ?thesis using lA by (simp add: unit_eigvec_def)
qed

lemma ieee_abs_times_uminus: "ieee_abs_times f (- v) = ieee_abs_times f v"
  by (cases f) simp_all

lemma weights_uminus: "weights aa (map uminus c) = weights aa c"
proof -
  have "map (\<lambda>(x, v). ieee_abs_times (scale_factor aa x) v) (zip aa (map uminus c))
        = map (\<lambda>(x, v). ieee_abs_times (scale_factor aa x) v) (zip aa c)"
    by (simp add: zip_map2 split_def ieee_abs_times_uminus)
  then show ?thesis by (simp add: weights_def)
qed

lemma feature_rich_reorder:
  assumes p: "bij_betw p {..<n} {..<n}" and len: "length om = n"
    and f: "feature_rich lib n k (aa_of om) om = Inr h"
    and z: "cor_t lib k om = Inr zz"
    and z': "cor_t lib k (reorder (the_inv_into {..<n} p) n om) = Inr zz'"
    and e: "eig_sym lib zz = Some (ev, U)" and e': "eig_sym lib zz' = Some (ev', U')"
    and ws: "well_shaped n n U'"
    and same: "ev' ! empty_vec_n_cols lib = ev ! empty_vec_n_cols lib"
    and simple: "simple_eigvec zz (ev ! empty_vec_n_cols lib) (col U (empty_vec_n_cols lib))"
    and unit: "unit_eigvec zz' (ev' ! empty_vec_n_cols lib) (col U' (empty_vec_n_cols lib))"
  shows "feature_rich lib n k (aa_of (reorder (the_inv_into {..<n} p) n om))
           (reorder (the_inv_into {..<n} p) n om)
         = Inr (reorder (the_inv_into {..<n} p) n h)"
proof -
  let ?q = "the_inv_into {..<n} p" and ?c = "empty_vec_n_cols lib"
  let ?u = "col U ?c" and ?u' = "col U' ?c"
  have q: "bij_betw ?q {..<n} {..<n}" using p by (rule bij_betw_the_inv_into)
  from f obtain c where fc: "feature_column lib n k om = Inr c" and w: "weights (aa_of om) c = Inr h"
    by (auto simp: feature_rich_def split: sum.splits)
  from feature_column_Inr [OF fc] z e have clt: "?c < n" and c: "c = ?u" by auto
  have zz': "zz' = reorder ?q n (map (reorder ?q n) zz)"
    using cor_t_reorder [OF q len z] z' by simp
  have wz: "well_shaped n n zz" using cor_t_well_shaped [OF z] len by simp
  have "unit_eigvec zz (ev ! ?c) (reorder p n ?u')"
    using unit unfolding same zz' by (rule unit_eigvec_unreorder [OF p wz])
  with simple have d: "reorder p n ?u' = ?u \<or> reorder p n ?u' = map uminus ?u"
    by (simp add: simple_eigvec_def)
  have lu': "length ?u' = n" using ws by (simp add: well_shaped_def)
  have lu: "length ?u = n" using weights_Inr(1) [OF w] c len by simp
  have ret: "?u' = reorder ?q n (reorder p n ?u')" using reorder_inverse [OF p lu'] by simp
  have fc': "feature_column lib n k (reorder ?q n om) = Inr ?u'"
    using z' e' ws clt by (simp add: feature_column_def)
  have la: "length (aa_of om) = n" using len by simp
  have wr: "weights (reorder ?q n (aa_of om)) (reorder ?q n ?u) = Inr (reorder ?q n h)"
    using weights_reorder [OF q la lu] w c by simp
  have "weights (reorder ?q n (aa_of om)) ?u' = Inr (reorder ?q n h)"
  proof -
    from d show ?thesis
    proof
      assume "reorder p n ?u' = ?u"
      with ret have "?u' = reorder ?q n ?u" by simp
      with wr show ?thesis by simp
    next
      assume "reorder p n ?u' = map uminus ?u"
      with ret have "?u' = reorder ?q n (map uminus ?u)" by simp
      also have "\<dots> = map uminus (reorder ?q n ?u)" by (rule reorder_map [OF q lu])
      finally show ?thesis using wr by (simp add: weights_uminus)
    qed
  qed
  then show ?thesis
    by (simp add: feature_rich_def fc' aa_of_reorder [OF q len])
qed


section \<open>Exchanging two slices in the feature-rich branch\<close>

lemma sqrt_prod_20_3: "sqrt (4 / 3) * sqrt (100 / 3) = 20 / 3"
proof -
  have "sqrt (4 / 3) * sqrt (100 / 3) = sqrt ((20 / 3)\<^sup>2)"
    by (simp only: real_sqrt_mult [symmetric]) (simp add: power2_eq_square)
  then show ?thesis by simp
qed

lemma pair_cov:
  "cov [1, - 1, 1, - 1] [1, - 1, 1, - 1] = 4 / 3"
  "cov [7, 1, - 1, - 7] [7, 1, - 1, - 7] = 100 / 3"
  "cov [1, - 1, 1, - 1] [7, 1, - 1, - 7] = 4"
  "cov [7, 1, - 1, - 7] [1, - 1, 1, - 1] = 4"
  by (simp_all add: cov_def centre_def mean_def)

lemma pair_cor:
  "cor_t lib 4 [[1, - 1, 1, - 1], [7, 1, - 1, - 7]] = Inr [[1, 3 / 5], [3 / 5, 1]]"
proof -
  have s: "sqrt (100 / 3) * sqrt (4 / 3) = 20 / 3" using sqrt_prod_20_3 by (simp add: mult.commute)
  have n: "sqrt (4 / 3) \<noteq> 0" "sqrt (100 / 3) \<noteq> 0" by simp_all
  have g: "\<not> overflows (4 / 3)" "\<not> overflows (100 / 3)" by (simp_all add: not_overflows)
  have u: "\<not> underflows (4 / 3)" "\<not> underflows (100 / 3)" by (simp_all add: not_underflows)
  show ?thesis
    unfolding cor_t_def
    by (simp only: list.set list.map pair_cov bex_simps insert_iff empty_iff n g u
          sqrt_prod_20_3 s) simp
qed

lemma pair_cor_swapped:
  "cor_t lib 4 [[7, 1, - 1, - 7], [1, - 1, 1, - 1]] = Inr [[1, 3 / 5], [3 / 5, 1]]"
proof -
  have s: "sqrt (100 / 3) * sqrt (4 / 3) = 20 / 3" using sqrt_prod_20_3 by (simp add: mult.commute)
  have n: "sqrt (4 / 3) \<noteq> 0" "sqrt (100 / 3) \<noteq> 0" by simp_all
  have g: "\<not> overflows (4 / 3)" "\<not> overflows (100 / 3)" by (simp_all add: not_overflows)
  have u: "\<not> underflows (4 / 3)" "\<not> underflows (100 / 3)" by (simp_all add: not_underflows)
  show ?thesis
    unfolding cor_t_def
    by (simp only: list.set list.map pair_cov bex_simps insert_iff empty_iff n g u
          sqrt_prod_20_3 s) simp
qed

lemma lapack_pair_eq: "lapack_pair [[1, 3 / 5], [3 / 5, 1]] = Some ([2 / 5, 8 / 5], pair_U)"
  by (simp add: lapack_pair_def)

lemma sqrt2_sq: "sqrt 2 * sqrt 2 = 2" by simp

lemma inv_sqrt2_sq: "1 / sqrt 2 * (1 / sqrt 2) = 1 / 2"
  by (simp add: field_simps)

lemma lapack_pair_genuine:
  "lapack_pair [[1, 3 / 5], [3 / 5, 1]] = Some ([2 / 5, 8 / 5], pair_U)
   \<and> mat_mul [[1, 3 / 5], [3 / 5, 1]] 2 pair_U
       = map (\<lambda>r. map (\<lambda>(x, l). x * l) (zip r [2 / 5, 8 / 5])) pair_U
   \<and> mat_mul (mat_t 2 pair_U) 2 pair_U = identity_mat 2
   \<and> sorted [2 / 5, 8 / 5 :: real]"
  by (simp add: lapack_pair_eq mat_mul_def mat_t_def col_def upt_2 pair_U_def identity_mat_def
        field_simps)

lemma pair_unit:
  "unit_eigvec [[1, 3 / 5], [3 / 5, 1]] (2 / 5) [1 / sqrt 2, - (1 / sqrt 2)]"
  by (simp add: unit_eigvec_def mat_vec_def field_simps)

lemma pair_simple:
  "simple_eigvec [[1, 3 / 5], [3 / 5, 1]] (2 / 5) [1 / sqrt 2, - (1 / sqrt 2)]"
proof -
  have "v = [1 / sqrt 2, - (1 / sqrt 2)] \<or> v = map uminus [1 / sqrt 2, - (1 / sqrt 2)]"
    if v: "unit_eigvec [[1, 3 / 5], [3 / 5, 1]] (2 / 5) v" for v
  proof -
    from v have "length v = 2" by (simp add: unit_eigvec_def)
    then obtain x y where xy: "v = [x, y]"
      by (cases v; cases "tl v"; cases "tl (tl v)") auto
    from v have e: "x + 3 / 5 * y = 2 / 5 * x" and u: "x * x + y * y = 1"
      unfolding xy by (simp_all add: unit_eigvec_def mat_vec_def)
    from e have y: "y = - x" by simp
    with u have "x * x = 1 / 2" by simp
    then have "x\<^sup>2 = (1 / sqrt 2)\<^sup>2" by (simp add: power2_eq_square)
    then have "x = 1 / sqrt 2 \<or> x = - (1 / sqrt 2)" by (simp only: power2_eq_iff)
    with y xy show ?thesis by auto
  qed
  with pair_unit show ?thesis by (simp only: simple_eigvec_def) blast
qed

lemma pair_column:
  "feature_column arma_pair 2 4 [[1, - 1, 1, - 1], [7, 1, - 1, - 7]] = Inr [1 / sqrt 2, - (1 / sqrt 2)]"
  by (simp add: feature_column_def pair_cor arma_pair_def lapack_pair_eq well_shaped_def col_def
        pair_U_def)

lemma sqrt_26_2: "sqrt 26 / sqrt 2 = sqrt 13"
proof -
  have "sqrt 26 / sqrt 2 = sqrt (26 / 2)" by (simp only: real_sqrt_divide)
  then show ?thesis by simp
qed

lemma sqrt_26_25_2: "sqrt (26 / 25) / sqrt 2 = sqrt (13 / 25)"
proof -
  have "sqrt (26 / 25) / sqrt 2 = sqrt (26 / 25 / 2)" by (simp only: real_sqrt_divide)
  then show ?thesis by simp
qed

lemma pair_weights:
  "weights [4, 100] [1 / sqrt 2, - (1 / sqrt 2)] = Inr [sqrt 13, sqrt (13 / 25)]"
proof -
  have o: "\<not> overflows (sqrt 13)" "\<not> overflows (sqrt (13 / 25))"
    by (simp_all add: not_overflows_sqrt_plain)
  have r: "(104::real) / 4 = 26" "(104::real) / 100 = 26 / 25" by simp_all
  have "weights [4, 100] [1 / sqrt 2, - (1 / sqrt 2)]
        = Inr (map (\<lambda>(x, v). \<bar>sqrt (sum_list [4, 100] / x) * v\<bar>)
                 (zip [4, 100] [1 / sqrt 2, - (1 / sqrt 2)]))"
  proof (rule weights_value)
    show "\<forall>(x, v)\<in>set (zip [4, 100] [1 / sqrt 2, - (1 / sqrt 2)]).
            \<not> overflows (sum_list [4, 100] / x) \<and> \<not> overflows \<bar>sqrt (sum_list [4, 100] / x) * v\<bar>"
      by (simp add: r sqrt_26_2 sqrt_26_25_2 o not_overflows)
  qed (simp_all add: not_overflows not_underflows)
  then show ?thesis by (simp add: r sqrt_26_2 sqrt_26_25_2)
qed

lemma pair_wf: "wf_call (array_of 2 2 2) (world_of [1, - 1, 1, - 1, 7, 1, - 1, - 7])"
  by (simp add: wf_call_def)

lemma pair_swapped_wf: "wf_call (array_of 2 2 2) (world_of [7, 1, - 1, - 7, 1, - 1, 1, - 1])"
  by (simp add: wf_call_def)

lemma pair_samples:
  "samples_of (heap_of [1, - 1, 1, - 1, 7, 1, - 1, - 7]) (array_of 2 2 2)
   = [[1, - 1, 1, - 1], [7, 1, - 1, - 7]]"
  by (simp add: samples_of_list upt_2)

lemma pair_swapped_samples:
  "samples_of (heap_of [7, 1, - 1, - 7, 1, - 1, 1, - 1]) (array_of 2 2 2)
   = [[7, 1, - 1, - 7], [1, - 1, 1, - 1]]"
  by (simp add: samples_of_list upt_2)

lemma pair_result:
  "fst (scaleproc arma_pair (array_of 2 2 2) (world_of [1, - 1, 1, - 1, 7, 1, - 1, - 7]))
   = Inr [sqrt 13, sqrt (13 / 25)]"
proof -
  have aa: "aa_of [[1, - 1, 1, - 1], [7, 1, - 1, - 7]] = [4, 100]"
    by (simp add: aa_of_def accu_def)
  have "estimate arma_pair 2 4 [4, 100] [[1, - 1, 1, - 1], [7, 1, - 1, - 7]]
        = (Inr [sqrt 13, sqrt (13 / 25)], [])"
    by (simp add: estimate_def path_taken_def feature_rich_def pair_column pair_weights)
  then show ?thesis
    by (simp add: scaleproc_result [OF pair_wf] pair_samples aa)
qed

lemma swap_bij: "bij_betw (\<lambda>i. 1 - i) {..<2 :: nat} {..<2}"
  by (rule bij_betw_byWitness [where f' = "\<lambda>i. 1 - i"]) auto

lemma pair_swapped_heap:
  "\<forall>i<dim2 (array_of 2 2 2). \<forall>t<dim0 (array_of 2 2 2) * dim1 (array_of 2 2 2).
      heap (world_of [7, 1, - 1, - 7, 1, - 1, 1, - 1])
        (begin_addr (array_of 2 2 2) + dim0 (array_of 2 2 2) * dim1 (array_of 2 2 2) * (1 - i) + t)
      = heap (world_of [1, - 1, 1, - 1, 7, 1, - 1, - 7])
        (begin_addr (array_of 2 2 2) + dim0 (array_of 2 2 2) * dim1 (array_of 2 2 2) * i + t)"
proof -
  have "list_all (\<lambda>i. list_all (\<lambda>t. heap_of [7, 1, - 1, - 7, 1, - 1, 1, - 1] (4 * (1 - i) + t)
                   = heap_of [1, - 1, 1, - 1, 7, 1, - 1, - 7 :: real] (4 * i + t)) [0..<4]) [0..<2]"
    by (simp add: upt_rec heap_of_def)
  then have "\<forall>i<2. \<forall>t<4. heap_of [7, 1, - 1, - 7, 1, - 1, 1, - 1] (4 * (1 - i) + t)
                   = heap_of [1, - 1, 1, - 1, 7, 1, - 1, - 7 :: real] (4 * i + t)"
    by (simp only: list_all_iff set_upt atLeastLessThan_iff) simp
  then show ?thesis by simp
qed

lemma swapped_wf: "wf_call (array_of 2 2 2) (world_of [2, 2, - 2, - 2, 1, - 1, 1, - 1])"
  by (simp add: wf_call_def)

lemma swapped_samples:
  "samples_of (heap_of [2, 2, - 2, - 2, 1, - 1, 1, - 1]) (array_of 2 2 2)
   = [[2, 2, - 2, - 2], [1, - 1, 1, - 1]]"
  by (simp add: samples_of_list upt_2)

lemma swapped_cor:
  "cor_t lib 4 [[2, 2, - 2, - 2], [1, - 1, 1, - 1]] = Inr [[1, 0], [0, 1]]"
  by (simp add: cor_t_def cov_def centre_def mean_def dot_def not_overflows not_underflows)

lemma weights_16_4_first: "weights [16, 4] [1, 0] = Inr [sqrt (5 / 4), 0]"
  by (subst weights_value)
    (simp_all add: not_overflows not_underflows not_overflows_sqrt_plain)

lemma swapped_result:
  "fst (scaleproc arma_old (array_of 2 2 2) (world_of [2, 2, - 2, - 2, 1, - 1, 1, - 1]))
   = Inr [sqrt (5 / 4), 0]"
proof -
  have c: "feature_column arma_old 2 4 [[2, 2, - 2, - 2], [1, - 1, 1, - 1]] = Inr [1, 0]"
    by (simp add: feature_column_def swapped_cor arma_old_def lapack_identity_2
          well_shaped_def col_def)
  have aa: "aa_of [[2, 2, - 2, - 2], [1, - 1, 1, - 1]] = [16, 4]"
    by (simp add: aa_of_def accu_def)
  show ?thesis
    by (simp add: scaleproc_result [OF swapped_wf] swapped_samples aa estimate_def
          path_taken_def feature_rich_def c weights_16_4_first)
qed


lemma tied_rev_wf: "wf_call (array_of 2 2 6) (world_of tied_data_rev)"
  by (simp add: wf_call_def tied_data_rev_def)

lemma rev_bij: "bij_betw (\<lambda>i. 5 - i) {..<6 :: nat} {..<6}"
  by (rule bij_betw_byWitness [where f' = "\<lambda>i. 5 - i"]) auto

lemma tied_rev_heap:
  "\<forall>i<dim2 (array_of 2 2 6). \<forall>t<dim0 (array_of 2 2 6) * dim1 (array_of 2 2 6).
      heap (world_of tied_data_rev)
        (begin_addr (array_of 2 2 6) + dim0 (array_of 2 2 6) * dim1 (array_of 2 2 6) * (5 - i) + t)
      = heap (world_of tied_data)
        (begin_addr (array_of 2 2 6) + dim0 (array_of 2 2 6) * dim1 (array_of 2 2 6) * i + t)"
proof -
  have "list_all (\<lambda>i. list_all (\<lambda>t. heap_of tied_data_rev (4 * (5 - i) + t)
                                     = heap_of tied_data (4 * i + t)) [0..<4]) [0..<6]"
    by (simp add: upt_rec heap_of_def tied_data_def tied_data_rev_def)
  then have "\<forall>i<6. \<forall>t<4. heap_of tied_data_rev (4 * (5 - i) + t) = heap_of tied_data (4 * i + t)"
    by (simp only: list_all_iff set_upt atLeastLessThan_iff) simp
  then show ?thesis by simp
qed

lemma pair_feature_conditions:
  "\<exists>zz zz' ev U ev' U'.
       cor_t arma_pair (dim0 (array_of 2 2 2) * dim1 (array_of 2 2 2))
         (samples_of (heap (world_of [1, - 1, 1, - 1, 7, 1, - 1, - 7])) (array_of 2 2 2)) = Inr zz
     \<and> cor_t arma_pair (dim0 (array_of 2 2 2) * dim1 (array_of 2 2 2))
         (samples_of (heap (world_of [7, 1, - 1, - 7, 1, - 1, 1, - 1])) (array_of 2 2 2)) = Inr zz'
     \<and> eig_sym arma_pair zz = Some (ev, U) \<and> eig_sym arma_pair zz' = Some (ev', U')
     \<and> well_shaped (dim2 (array_of 2 2 2)) (dim2 (array_of 2 2 2)) U'
     \<and> ev' ! empty_vec_n_cols arma_pair = ev ! empty_vec_n_cols arma_pair
     \<and> simple_eigvec zz (ev ! empty_vec_n_cols arma_pair) (col U (empty_vec_n_cols arma_pair))
     \<and> unit_eigvec zz' (ev' ! empty_vec_n_cols arma_pair) (col U' (empty_vec_n_cols arma_pair))"
proof -
  have c0: "col pair_U 0 = [1 / sqrt 2, - (1 / sqrt 2)]" by (simp add: col_def pair_U_def)
  have e: "eig_sym arma_pair [[1, 3 / 5], [3 / 5, 1]] = Some ([2 / 5, 8 / 5], pair_U)"
    by (simp add: arma_pair_def lapack_pair_eq)
  have m: "empty_vec_n_cols arma_pair = 0" by (simp add: arma_pair_def)
  have w: "well_shaped 2 2 pair_U" by (simp add: well_shaped_def pair_U_def)
  have v: "[2 / 5, 8 / 5 :: real] ! 0 = 2 / 5" by simp
  show ?thesis
    unfolding world_of_sel array_of_sel pair_samples pair_swapped_samples m
    apply (rule exI [of _ "[[1, 3 / 5], [3 / 5, 1]]"])
    apply (rule exI [of _ "[[1, 3 / 5], [3 / 5, 1]]"])
    apply (rule exI [of _ "[2 / 5, 8 / 5]"])
    apply (rule exI [of _ pair_U])
    apply (rule exI [of _ "[2 / 5, 8 / 5]"])
    apply (rule exI [of _ pair_U])
    unfolding c0 v
    using pair_cor [of arma_pair] pair_cor_swapped [of arma_pair] e w pair_simple pair_unit
    by simp
qed


end
